theory Spec2Isabelle
  imports Complex_Main
begin

section \<open>Alexson: scanner, parser and concrete syntax tree\<close>

text \<open>
  A shallow embedding of the Alexson parser (\<^verbatim>\<open>lexer.py\<close>, \<^verbatim>\<open>parser.py\<close>,
  \<^verbatim>\<open>syntax_tree.py\<close>). Python strings are modelled as \<^typ>\<open>string\<close>; a \<^typ>\<open>char\<close>
  stands for the code point of the same number (0 to 255), and the character classes
  below are Python's \<^verbatim>\<open>str.isalpha\<close> and \<^verbatim>\<open>str.isdigit\<close> on that range. Exceptions
  are values of the type \<open>error\<close>; a function that can raise returns \<open>error + 'a\<close>.
\<close>

subsection \<open>Errors\<close>

text \<open>
  \<^verbatim>\<open>AlexsonLexicalError(msg, row, col)\<close> and \<^verbatim>\<open>AlexsonParserException(msg, row, col)\<close>
  are the two exception classes of the source. The others are Python's built-in
  exceptions that the source can raise without catching: \<^verbatim>\<open>None.type\<close> is an
  \<^verbatim>\<open>AttributeError\<close>, a failed \<^verbatim>\<open>assert\<close> an \<^verbatim>\<open>AssertionError\<close>.
\<close>

datatype error =
    AlexsonLexicalError string int int
  | AlexsonParserException string int int
  | AttributeError
  | AssertionError
  | ValueError
  | IndexError
  | TypeError
  | KeyError
  | NotImplementedError string

subsection \<open>Tokens (lexer.py)\<close>

datatype TokenType =
    STRING | NUMBER | BOOLEAN | NULL | VARIABLE
  | LBRACE | RBRACE | LBRACKET | RBRACKET | COLON | COMMA | COMMENT
  | NEWLINES | SPACES | TABS

definition NON_JSON_TYPES :: "TokenType set" where
  "NON_JSON_TYPES = {COMMENT, NEWLINES, SPACES, TABS}"

datatype Token = Token (tok_type: TokenType) (tok_value: string)

text \<open>
  The scanner records the position of every token in a side table keyed by the token
  object. All tokens stay alive in the token list, so the keys are distinct and the table
  is a function of the token's place in the list: a token is paired with its entry.
\<close>

type_synonym ptoken = "Token \<times> (int \<times> int)"

definition dquote :: char where
  "dquote = CHR 0x22"

definition backslash :: char where
  "backslash = CHR 0x5C"

definition newline :: char where
  "newline = CHR 0x0A"

definition tab :: char where
  "tab = CHR 0x09"

text \<open>\<^verbatim>\<open>str.isdigit\<close> and \<^verbatim>\<open>str.isalpha\<close> on the code points 0 to 255.\<close>

definition isdigit :: "char \<Rightarrow> bool" where
  "isdigit c = (let n = (of_char c :: nat) in
     (48 \<le> n \<and> n \<le> 57) \<or> n = 178 \<or> n = 179 \<or> n = 185)"

definition isalpha :: "char \<Rightarrow> bool" where
  "isalpha c = (let n = (of_char c :: nat) in
     (65 \<le> n \<and> n \<le> 90) \<or> (97 \<le> n \<and> n \<le> 122) \<or> n = 170 \<or> n = 181 \<or> n = 186 \<or>
     (192 \<le> n \<and> n \<le> 214) \<or> (216 \<le> n \<and> n \<le> 246) \<or> (248 \<le> n \<and> n \<le> 255))"

text \<open>\<^verbatim>\<open>str(n)\<close> for a length, used by \<^verbatim>\<open>Token.__str__\<close>.\<close>

fun str_nat :: "nat \<Rightarrow> string" where
  "str_nat n = (if n < 10 then [char_of (48 + n)] else str_nat (n div 10) @ [char_of (48 + n mod 10)])"

declare str_nat.simps [simp del]

fun type_name :: "TokenType \<Rightarrow> string" where
  "type_name STRING = ''STRING''"
| "type_name NUMBER = ''NUMBER''"
| "type_name BOOLEAN = ''BOOLEAN''"
| "type_name NULL = ''NULL''"
| "type_name VARIABLE = ''VARIABLE''"
| "type_name LBRACE = ''LBRACE''"
| "type_name RBRACE = ''RBRACE''"
| "type_name LBRACKET = ''LBRACKET''"
| "type_name RBRACKET = ''RBRACKET''"
| "type_name COLON = ''COLON''"
| "type_name COMMA = ''COMMA''"
| "type_name COMMENT = ''COMMENT''"
| "type_name NEWLINES = ''NEWLINES''"
| "type_name SPACES = ''SPACES''"
| "type_name TABS = ''TABS''"

text \<open>\<^verbatim>\<open>Token.__str__\<close>.\<close>

definition Token_str :: "Token \<Rightarrow> string" where
  "Token_str t =
     (if tok_type t \<in> {COLON, LBRACE, RBRACE, LBRACKET, RBRACKET, COMMA} then type_name (tok_type t)
      else if tok_type t \<in> {SPACES, TABS} then type_name (tok_type t) @ ''*'' @ str_nat (length (tok_value t))
      else if tok_type t = NEWLINES then type_name (tok_type t) @ tok_value t
      else type_name (tok_type t) @ ''('' @ tok_value t @ '')'')"

subsection \<open>The scanner (lexer.py, class Lexer)\<close>

text \<open>
  The scanner's state. \<open>rest\<close> is \<^verbatim>\<open>text[pos:]\<close>: \<^verbatim>\<open>current_char\<close> is its head, and
  \<^verbatim>\<open>None\<close> when it is empty (\<^verbatim>\<open>pos == len(text)\<close>). \<open>row\<close> and \<open>col\<close> are the
  fields of the same name.
\<close>

record Lexer =
  rest :: string
  row :: int
  col :: int

definition Lexer_init :: "string \<Rightarrow> Lexer" where
  "Lexer_init text = \<lparr>rest = text, row = 1, col = 0\<rparr>"

definition current_char :: "Lexer \<Rightarrow> char option" where
  "current_char L = (case rest L of [] \<Rightarrow> None | c # _ \<Rightarrow> Some c)"

text \<open>
  \<^verbatim>\<open>Lexer._next\<close>: one character forward. Moving past the end of the text
  (\<^verbatim>\<open>pos > len(text)\<close>) raises the lexical error \<^verbatim>\<open>End of input\<close> at the current
  row and column; otherwise the row and column follow the new current character.
\<close>

definition next_char :: "Lexer \<Rightarrow> error + Lexer" where
  "next_char L =
     (case rest L of
        [] \<Rightarrow> Inl (AlexsonLexicalError ''End of input'' (row L) (col L))
      | c # cs \<Rightarrow>
          Inr (if current_char (L\<lparr>rest := cs\<rparr>) = Some newline
               then L\<lparr>rest := cs, row := row L + 1, col := 0\<rparr>
               else L\<lparr>rest := cs, col := col L + 1\<rparr>))"

text \<open>\<^verbatim>\<open>Lexer.next(length)\<close>.\<close>

fun next_n :: "nat \<Rightarrow> Lexer \<Rightarrow> error + Lexer" where
  "next_n 0 L = Inr L"
| "next_n (Suc n) L = (case next_char L of Inl e \<Rightarrow> Inl e | Inr L' \<Rightarrow> next_n n L')"

text \<open>\<^verbatim>\<open>Lexer.peek(length)\<close>: the \<open>length\<close> characters after the current one, or
  \<^verbatim>\<open>None\<close> when fewer remain.\<close>

definition peek :: "nat \<Rightarrow> Lexer \<Rightarrow> string option" where
  "peek n L = (if length (rest L) \<le> n then None else Some (take n (tl (rest L))))"

text \<open>
  The loops of \<^verbatim>\<open>whitespaces\<close>, \<^verbatim>\<open>tabs\<close>, \<^verbatim>\<open>newlines\<close>, \<^verbatim>\<open>comment\<close>,
  \<^verbatim>\<open>number\<close> and \<^verbatim>\<open>variable\<close> have one shape,
  \<^verbatim>\<open>while current_char is not None and p(current_char): value += current_char; next()\<close>,
  and differ in the test \<open>p\<close> only.
\<close>

function scan_while :: "(char \<Rightarrow> bool) \<Rightarrow> string \<Rightarrow> Lexer \<Rightarrow> error + (string \<times> Lexer)" where
  "scan_while p acc L =
     (case rest L of
        [] \<Rightarrow> Inr (acc, L)
      | c # cs \<Rightarrow>
          if p c then (case next_char L of Inl e \<Rightarrow> Inl e | Inr L' \<Rightarrow> scan_while p (acc @ [c]) L')
          else Inr (acc, L))"
  by pat_completeness auto
termination
  by (relation "measure (\<lambda>(p, acc, L). length (rest L))")
     (auto simp: next_char_def split: if_splits)

declare scan_while.simps [simp del]

definition whitespaces :: "Lexer \<Rightarrow> error + (Token \<times> Lexer)" where
  "whitespaces L = (case scan_while (\<lambda>c. c = CHR '' '') [] L of
     Inl e \<Rightarrow> Inl e | Inr (v, L') \<Rightarrow> Inr (Token SPACES v, L'))"

definition tabs :: "Lexer \<Rightarrow> error + (Token \<times> Lexer)" where
  "tabs L = (case scan_while (\<lambda>c. c = tab) [] L of
     Inl e \<Rightarrow> Inl e | Inr (v, L') \<Rightarrow> Inr (Token TABS v, L'))"

definition newlines :: "Lexer \<Rightarrow> error + (Token \<times> Lexer)" where
  "newlines L = (case scan_while (\<lambda>c. c = newline) [] L of
     Inl e \<Rightarrow> Inl e | Inr (v, L') \<Rightarrow> Inr (Token NEWLINES v, L'))"

definition comment :: "Lexer \<Rightarrow> error + (Token \<times> Lexer)" where
  "comment L = (case scan_while (\<lambda>c. c \<noteq> newline) [] L of
     Inl e \<Rightarrow> Inl e | Inr (v, L') \<Rightarrow> Inr (Token COMMENT v, L'))"

text \<open>\<^verbatim>\<open>(current_char is not None and current_char.isdigit()) or current_char == '.'\<close>\<close>

definition number :: "Lexer \<Rightarrow> error + (Token \<times> Lexer)" where
  "number L = (case scan_while (\<lambda>c. isdigit c \<or> c = CHR ''.'') [] L of
     Inl e \<Rightarrow> Inl e | Inr (v, L') \<Rightarrow> Inr (Token NUMBER v, L'))"

text \<open>\<^verbatim>\<open>variable\<close> takes the current character whatever it is, then loops.\<close>

definition variable :: "Lexer \<Rightarrow> error + (Token \<times> Lexer)" where
  "variable L =
     (case next_char L of
        Inl e \<Rightarrow> Inl e
      | Inr L1 \<Rightarrow>
          (case scan_while (\<lambda>c. isalpha c \<or> isdigit c \<or> c = CHR ''_'') (take 1 (rest L)) L1 of
             Inl e \<Rightarrow> Inl e
           | Inr (v, L') \<Rightarrow> Inr (Token VARIABLE v, L')))"

text \<open>
  The loop of \<^verbatim>\<open>Lexer.string\<close>: a backslash sets \<open>escaped\<close> and is dropped, any
  other character clears it and is kept; the loop stops at the end of the text or at a
  double quote that is not escaped.
\<close>

function string_loop :: "string \<Rightarrow> bool \<Rightarrow> Lexer \<Rightarrow> error + (string \<times> Lexer)" where
  "string_loop s escaped L =
     (case rest L of
        [] \<Rightarrow> Inr (s, L)
      | c # cs \<Rightarrow>
          if c = dquote \<and> \<not> escaped then Inr (s, L)
          else (case next_char L of
                  Inl e \<Rightarrow> Inl e
                | Inr L' \<Rightarrow>
                    if c = backslash then string_loop s True L'
                    else string_loop (s @ [c]) False L'))"
  by pat_completeness auto
termination
  by (relation "measure (\<lambda>(s, escaped, L). length (rest L))")
     (auto simp: next_char_def split: if_splits)

declare string_loop.simps [simp del]

text \<open>\<^verbatim>\<open>Lexer.string\<close>: skip the opening quote, run the loop, skip the closing quote
  (which raises \<^verbatim>\<open>End of input\<close> when the text ended inside the string).\<close>

definition lex_string :: "Lexer \<Rightarrow> error + (Token \<times> Lexer)" where
  "lex_string L =
     (case next_char L of
        Inl e \<Rightarrow> Inl e
      | Inr L1 \<Rightarrow>
          (case string_loop [] False L1 of
             Inl e \<Rightarrow> Inl e
           | Inr (s, L2) \<Rightarrow>
               (case next_char L2 of
                  Inl e \<Rightarrow> Inl e
                | Inr L3 \<Rightarrow> Inr (Token STRING s, L3))))"

text \<open>A single-character token: \<^verbatim>\<open>self.next(); token = Token(type, text)\<close>.\<close>

definition single :: "TokenType \<Rightarrow> string \<Rightarrow> Lexer \<Rightarrow> error + (Token \<times> Lexer)" where
  "single ty v L = (case next_char L of Inl e \<Rightarrow> Inl e | Inr L' \<Rightarrow> Inr (Token ty v, L'))"

text \<open>A keyword: \<^verbatim>\<open>token = Token(type, text); self.next(len(text))\<close>.\<close>

definition keyword :: "TokenType \<Rightarrow> string \<Rightarrow> Lexer \<Rightarrow> error + (Token \<times> Lexer)" where
  "keyword ty v L = (case next_n (length v) L of Inl e \<Rightarrow> Inl e | Inr L' \<Rightarrow> Inr (Token ty v, L'))"

text \<open>
  The branch of \<^verbatim>\<open>Lexer.next_token\<close> for the current character \<open>c\<close>, in the order
  of the source.
\<close>

definition scan_token :: "char \<Rightarrow> Lexer \<Rightarrow> error + (Token \<times> Lexer)" where
  "scan_token c L =
     (if c = CHR ''t'' \<and> peek 3 L = Some ''rue'' then keyword BOOLEAN ''true'' L
      else if c = CHR ''f'' \<and> peek 4 L = Some ''alse'' then keyword BOOLEAN ''false'' L
      else if c = CHR ''n'' \<and> peek 3 L = Some ''ull'' then keyword NULL ''null'' L
      else if c = dquote then lex_string L
      else if c = CHR ''#'' then comment L
      else if c = newline then newlines L
      else if c = tab then tabs L
      else if c = CHR '' '' then whitespaces L
      else if c = CHR ''{'' then single LBRACE ''{'' L
      else if c = CHR ''}'' then single RBRACE ''}'' L
      else if c = CHR ''['' then single LBRACKET ''['' L
      else if c = CHR '']'' then single RBRACKET '']'' L
      else if c = CHR '':'' then single COLON '':'' L
      else if c = CHR '','' then single COMMA '','' L
      else if isalpha c \<or> c = CHR ''_'' then variable L
      else if isdigit c then number L
      else Inl (AlexsonLexicalError (''Unexpected character '' @ [c]) (row L) (col L)))"

text \<open>
  \<^verbatim>\<open>Lexer.next_token\<close>: \<^verbatim>\<open>None\<close> at the end of the text, otherwise the token with
  the position recorded for it, which is the scanner's row and column once the token is
  complete.
\<close>

definition next_token :: "Lexer \<Rightarrow> error + (ptoken option \<times> Lexer)" where
  "next_token L =
     (case rest L of
        [] \<Rightarrow> Inr (None, L)
      | c # cs \<Rightarrow>
          (case scan_token c L of
             Inl e \<Rightarrow> Inl e
           | Inr (t, L') \<Rightarrow> Inr (Some (t, (row L', col L')), L')))"

subsection \<open>The text a token stands for\<close>

text \<open>
  \<^verbatim>\<open>String.to_alexson\<close> escapes the double quote and nothing else:
  \<^verbatim>\<open>value.replace('"', '\\"')\<close>.
\<close>

definition escape_quotes :: "string \<Rightarrow> string" where
  "escape_quotes v = concat (map (\<lambda>c. if c = dquote then [backslash, dquote] else [c]) v)"

text \<open>
  The text that the node made from a token serializes to: a string in quotes with its
  quotes escaped, any other token its own text.
\<close>

definition lexeme :: "Token \<Rightarrow> string" where
  "lexeme t = (if tok_type t = STRING then [dquote] @ escape_quotes (tok_value t) @ [dquote]
               else tok_value t)"

text \<open>Every backslash of the text is immediately followed by a double quote.\<close>

fun bs_ok :: "string \<Rightarrow> bool" where
  "bs_ok [] = True"
| "bs_ok [c] = (c \<noteq> backslash)"
| "bs_ok (c # d # cs) = ((c = backslash \<longrightarrow> d = dquote) \<and> bs_ok (d # cs))"

text \<open>
  The form of a token's text that the scanner guarantees for its type: a run is made of
  its one character, a keyword and a structural token are spelled as such.
\<close>

fun canonical :: "TokenType \<Rightarrow> string \<Rightarrow> bool" where
  "canonical NEWLINES v = (v = replicate (length v) newline)"
| "canonical SPACES v = (v = replicate (length v) (CHR '' ''))"
| "canonical TABS v = (v = replicate (length v) tab)"
| "canonical BOOLEAN v = (v = ''true'' \<or> v = ''false'')"
| "canonical NULL v = (v = ''null'')"
| "canonical LBRACE v = (v = ''{'')"
| "canonical RBRACE v = (v = ''}'')"
| "canonical LBRACKET v = (v = ''['')"
| "canonical RBRACKET v = (v = '']'')"
| "canonical COLON v = (v = '':'')"
| "canonical COMMA v = (v = '','')"
| "canonical STRING v = True"
| "canonical NUMBER v = True"
| "canonical VARIABLE v = True"
| "canonical COMMENT v = True"

definition tok_wf :: "Token \<Rightarrow> bool" where
  "tok_wf t = canonical (tok_type t) (tok_value t)"

text \<open>
  A token covers a non-empty prefix of the text and has the form of its type; where the
  backslashes of the text are all escapes of a quote, that prefix is the token's text.
\<close>

definition token_covers :: "Lexer \<Rightarrow> Token \<Rightarrow> Lexer \<Rightarrow> bool" where
  "token_covers L t L' =
     (\<exists>pre. pre \<noteq> [] \<and> rest L = pre @ rest L' \<and> tok_wf t \<and>
            (bs_ok (rest L) \<longrightarrow> lexeme t = pre))"

subsection \<open>Every token consumes the text it stands for\<close>

lemma backslash_neq_dquote [simp]: "backslash \<noteq> dquote" "dquote \<noteq> backslash"
  by (simp_all add: backslash_def dquote_def)

lemma next_char_Inr: "next_char L = Inr L' \<Longrightarrow> \<exists>c. rest L = c # rest L'"
  by (auto simp: next_char_def split: list.splits if_splits)

lemma next_char_Inr_iff: "rest L = c # cs \<Longrightarrow> \<exists>L'. next_char L = Inr L' \<and> rest L' = cs"
  by (auto simp: next_char_def)

lemma next_n_consumes: "next_n n L = Inr L' \<Longrightarrow> \<exists>pre. length pre = n \<and> rest L = pre @ rest L'"
proof (induction n arbitrary: L)
  case 0
  then show ?case by simp
next
  case (Suc n)
  from Suc.prems obtain L1 where s1: "next_char L = Inr L1" and s2: "next_n n L1 = Inr L'"
    by (auto split: sum.splits)
  from next_char_Inr [OF s1] obtain c where c: "rest L = c # rest L1" by blast
  from Suc.IH [OF s2] obtain pre where "length pre = n" "rest L1 = pre @ rest L'" by blast
  with c have "length (c # pre) = Suc n \<and> rest L = (c # pre) @ rest L'" by simp
  then show ?case by blast
qed

lemma scan_while_consumes:
  "scan_while p acc L = Inr (v, L') \<Longrightarrow>
   \<exists>pre. rest L = pre @ rest L' \<and> v = acc @ pre \<and> list_all p pre"
proof (induction p acc L rule: scan_while.induct)
  case (1 p acc L)
  note unf = "1.prems" [unfolded scan_while.simps [of p acc L]]
  show ?case
  proof (cases "rest L")
    case Nil
    with unf show ?thesis by simp
  next
    case (Cons c cs)
    show ?thesis
    proof (cases "p c")
      case False
      with Cons unf show ?thesis by simp
    next
      case True
      from next_char_Inr_iff [OF Cons] obtain L1 where n: "next_char L = Inr L1" and r: "rest L1 = cs"
        by blast
      from unf Cons True n have "scan_while p (acc @ [c]) L1 = Inr (v, L')"
        by simp
      from "1.IH" [OF Cons True n this] obtain pre where
        "rest L1 = pre @ rest L'" "v = (acc @ [c]) @ pre" "list_all p pre"
        by blast
      with Cons r True have "rest L = (c # pre) @ rest L' \<and> v = acc @ (c # pre) \<and> list_all p (c # pre)"
        by simp
      then show ?thesis by blast
    qed
  qed
qed

lemma list_all_eq_replicate: "list_all (\<lambda>c. c = a) w \<Longrightarrow> w = replicate (length w) a"
  by (induction w) auto

lemma bs_ok_tl: "bs_ok (c # cs) \<Longrightarrow> bs_ok cs"
  by (cases cs) auto

lemma bs_ok_append: "bs_ok (pre @ cs) \<Longrightarrow> bs_ok cs"
  by (induction pre) (auto dest: bs_ok_tl)

lemma escape_quotes_snoc:
  "escape_quotes (s @ [c]) = escape_quotes s @ (if c = dquote then [backslash, dquote] else [c])"
  by (simp add: escape_quotes_def)

lemma bs_ok_backslash: "bs_ok (backslash # cs) \<Longrightarrow> \<exists>r. cs = dquote # r"
  by (cases cs) auto

lemma string_loop_consumes:
  "string_loop s escaped L = Inr (v, L') \<Longrightarrow>
   \<exists>pre. rest L = pre @ rest L' \<and> (rest L' = [] \<or> (\<exists>d. rest L' = dquote # d)) \<and>
     (bs_ok (rest L) \<longrightarrow> (escaped \<longrightarrow> (\<exists>r. rest L = dquote # r)) \<longrightarrow>
        escape_quotes v = escape_quotes s @ (if escaped then [backslash] else []) @ pre)"
proof (induction s escaped L rule: string_loop.induct)
  case (1 s escaped L)
  note unf = "1.prems" [unfolded string_loop.simps [of s escaped L]]
  show ?case
  proof (cases "rest L")
    case Nil
    with unf show ?thesis by simp
  next
    case (Cons c cs)
    show ?thesis
    proof (cases "c = dquote \<and> \<not> escaped")
      case True
      with Cons unf show ?thesis by simp
    next
      case False
      from next_char_Inr_iff [OF Cons] obtain L1 where n: "next_char L = Inr L1" and r: "rest L1 = cs"
        by blast
      show ?thesis
      proof (cases "c = backslash")
        case True
        from unf Cons False n True have run: "string_loop s True L1 = Inr (v, L')"
          by simp
        from "1.IH"(1) [OF Cons False n True run] obtain pre where
          p1: "rest L1 = pre @ rest L'" and p2: "rest L' = [] \<or> (\<exists>d. rest L' = dquote # d)"
          and p3: "bs_ok (rest L1) \<longrightarrow> (\<exists>r. rest L1 = dquote # r) \<longrightarrow>
                     escape_quotes v = escape_quotes s @ [backslash] @ pre"
          by auto
        have "bs_ok (rest L) \<longrightarrow> (escaped \<longrightarrow> (\<exists>r. rest L = dquote # r)) \<longrightarrow>
                escape_quotes v = escape_quotes s @ (if escaped then [backslash] else []) @ (c # pre)"
        proof (intro impI)
          assume ok: "bs_ok (rest L)" and e: "escaped \<longrightarrow> (\<exists>r. rest L = dquote # r)"
          from e Cons True have ne: "\<not> escaped" by (auto simp: dquote_def backslash_def)
          from ok Cons True have "\<exists>r. cs = dquote # r" by (auto dest: bs_ok_backslash)
          moreover from ok Cons have "bs_ok cs" by (auto dest: bs_ok_tl)
          ultimately have "escape_quotes v = escape_quotes s @ [backslash] @ pre"
            using p3 r by simp
          with ne True show "escape_quotes v = escape_quotes s @ (if escaped then [backslash] else []) @ (c # pre)"
            by simp
        qed
        with p1 p2 Cons r have "rest L = (c # pre) @ rest L' \<and> (rest L' = [] \<or> (\<exists>d. rest L' = dquote # d)) \<and>
           (bs_ok (rest L) \<longrightarrow> (escaped \<longrightarrow> (\<exists>r. rest L = dquote # r)) \<longrightarrow>
                escape_quotes v = escape_quotes s @ (if escaped then [backslash] else []) @ (c # pre))"
          by simp
        then show ?thesis by blast
      next
        case nb: False
        from unf Cons False n nb have run: "string_loop (s @ [c]) False L1 = Inr (v, L')"
          by simp
        from "1.IH"(2) [OF Cons False n nb run] obtain pre where
          p1: "rest L1 = pre @ rest L'" and p2: "rest L' = [] \<or> (\<exists>d. rest L' = dquote # d)"
          and p3: "bs_ok (rest L1) \<longrightarrow> escape_quotes v = escape_quotes (s @ [c]) @ pre"
          by auto
        have "bs_ok (rest L) \<longrightarrow> (escaped \<longrightarrow> (\<exists>r. rest L = dquote # r)) \<longrightarrow>
                escape_quotes v = escape_quotes s @ (if escaped then [backslash] else []) @ (c # pre)"
        proof (intro impI)
          assume ok: "bs_ok (rest L)" and e: "escaped \<longrightarrow> (\<exists>r. rest L = dquote # r)"
          from ok Cons have "bs_ok cs" by (auto dest: bs_ok_tl)
          with p3 r have v: "escape_quotes v = escape_quotes (s @ [c]) @ pre" by simp
          show "escape_quotes v = escape_quotes s @ (if escaped then [backslash] else []) @ (c # pre)"
          proof (cases escaped)
            case True
            with e Cons have "c = dquote" by auto
            with v True show ?thesis by (simp add: escape_quotes_snoc)
          next
            case ne: False
            with False have "c \<noteq> dquote" by simp
            with v ne show ?thesis by (simp add: escape_quotes_snoc)
          qed
        qed
        with p1 p2 Cons r have "rest L = (c # pre) @ rest L' \<and> (rest L' = [] \<or> (\<exists>d. rest L' = dquote # d)) \<and>
           (bs_ok (rest L) \<longrightarrow> (escaped \<longrightarrow> (\<exists>r. rest L = dquote # r)) \<longrightarrow>
                escape_quotes v = escape_quotes s @ (if escaped then [backslash] else []) @ (c # pre))"
          by simp
        then show ?thesis by blast
      qed
    qed
  qed
qed


lemma scan_while_covers:
  assumes run: "scan_while p [] L = Inr (v, L')" and hd: "rest L = c # cs" and pc: "p c"
    and ty: "ty \<noteq> STRING" and wf: "\<And>w. list_all p w \<Longrightarrow> canonical ty w"
  shows "token_covers L (Token ty v) L'"
proof -
  from next_char_Inr_iff [OF hd] obtain L1 where n: "next_char L = Inr L1" and r: "rest L1 = cs"
    by blast
  from run [unfolded scan_while.simps [of p "[]" L]] hd pc n
  have "scan_while p [c] L1 = Inr (v, L')" by simp
  from scan_while_consumes [OF this] obtain pre where
    pre: "rest L1 = pre @ rest L'" "v = [c] @ pre" "list_all p pre"
    by blast
  with pc have "list_all p v" by simp
  then have "tok_wf (Token ty v)" by (simp add: tok_wf_def wf)
  with pre hd r ty have "c # pre \<noteq> [] \<and> rest L = (c # pre) @ rest L' \<and> tok_wf (Token ty v) \<and>
      lexeme (Token ty v) = c # pre"
    by (simp add: lexeme_def)
  then show ?thesis unfolding token_covers_def by blast
qed

lemma whitespaces_covers:
  "whitespaces L = Inr (t, L') \<Longrightarrow> rest L = CHR '' '' # cs \<Longrightarrow> token_covers L t L'"
  by (auto simp: whitespaces_def split: sum.splits intro!: scan_while_covers list_all_eq_replicate)

lemma tabs_covers:
  "tabs L = Inr (t, L') \<Longrightarrow> rest L = tab # cs \<Longrightarrow> token_covers L t L'"
  by (auto simp: tabs_def split: sum.splits intro!: scan_while_covers list_all_eq_replicate)

lemma newlines_covers:
  "newlines L = Inr (t, L') \<Longrightarrow> rest L = newline # cs \<Longrightarrow> token_covers L t L'"
  by (auto simp: newlines_def split: sum.splits intro!: scan_while_covers list_all_eq_replicate)

lemma comment_covers:
  "comment L = Inr (t, L') \<Longrightarrow> rest L = CHR ''#'' # cs \<Longrightarrow> token_covers L t L'"
  by (auto simp: comment_def newline_def split: sum.splits intro!: scan_while_covers)

lemma number_covers:
  "number L = Inr (t, L') \<Longrightarrow> rest L = c # cs \<Longrightarrow> isdigit c \<Longrightarrow> token_covers L t L'"
  by (auto simp: number_def split: sum.splits intro!: scan_while_covers)

lemma variable_covers:
  assumes run: "variable L = Inr (t, L')" and hd: "rest L = c # cs"
  shows "token_covers L t L'"
proof -
  from next_char_Inr_iff [OF hd] obtain L1 where n: "next_char L = Inr L1" and r: "rest L1 = cs"
    by blast
  from run n hd obtain v where
    sw: "scan_while (\<lambda>c. isalpha c \<or> isdigit c \<or> c = CHR ''_'') [c] L1 = Inr (v, L')"
    and t: "t = Token VARIABLE v"
    by (auto simp: variable_def split: sum.splits)
  from scan_while_consumes [OF sw] obtain pre where "rest L1 = pre @ rest L'" "v = [c] @ pre"
    by blast
  with hd r t have "c # pre \<noteq> [] \<and> rest L = (c # pre) @ rest L' \<and> tok_wf t \<and> lexeme t = c # pre"
    by (simp add: lexeme_def tok_wf_def)
  then show ?thesis unfolding token_covers_def by blast
qed

lemma single_covers:
  assumes run: "single ty [c] L = Inr (t, L')" and hd: "rest L = c # cs" and ty: "ty \<noteq> STRING"
    and wf: "canonical ty [c]"
  shows "token_covers L t L'"
proof -
  from next_char_Inr_iff [OF hd] obtain L1 where n: "next_char L = Inr L1" and r: "rest L1 = cs"
    by blast
  with run hd ty wf have "[c] \<noteq> [] \<and> rest L = [c] @ rest L' \<and> tok_wf t \<and> lexeme t = [c]"
    by (auto simp: single_def lexeme_def tok_wf_def)
  then show ?thesis unfolding token_covers_def by blast
qed

lemma keyword_covers:
  assumes run: "keyword ty (c # w) L = Inr (t, L')" and hd: "rest L = c # cs"
    and pk: "peek (length w) L = Some w" and ty: "ty \<noteq> STRING" and wf: "canonical ty (c # w)"
  shows "token_covers L t L'"
proof -
  from run obtain L1 where n: "next_n (length (c # w)) L = Inr L1" and t: "t = Token ty (c # w)"
    and L1: "L1 = L'"
    by (auto simp: keyword_def split: sum.splits)
  from next_n_consumes [OF n] obtain pre where len: "length pre = length (c # w)"
    and pre: "rest L = pre @ rest L1" by blast
  from pk hd have w: "w = take (length w) cs" and "length w \<le> length cs"
    by (auto simp: peek_def split: if_splits)
  from pre hd len have "pre = take (length (c # w)) (c # cs)"
    by (metis append_eq_conv_conj)
  with w have "pre = c # w" by simp
  with pre t ty L1 wf have "c # w \<noteq> [] \<and> rest L = (c # w) @ rest L' \<and> tok_wf t \<and> lexeme t = c # w"
    by (simp add: lexeme_def tok_wf_def)
  then show ?thesis unfolding token_covers_def by blast
qed

lemma lex_string_covers:
  assumes run: "lex_string L = Inr (t, L')" and hd: "rest L = dquote # cs"
  shows "token_covers L t L'"
proof -
  from next_char_Inr_iff [OF hd] obtain L1 where n: "next_char L = Inr L1" and r: "rest L1 = cs"
    by blast
  from run n obtain s L2 where sl: "string_loop [] False L1 = Inr (s, L2)"
    and n2: "next_char L2 = Inr L'" and t: "t = Token STRING s"
    by (auto simp: lex_string_def split: sum.splits)
  from string_loop_consumes [OF sl] obtain pre where p1: "rest L1 = pre @ rest L2"
    and p2: "rest L2 = [] \<or> (\<exists>d. rest L2 = dquote # d)"
    and p3: "bs_ok (rest L1) \<longrightarrow> escape_quotes s = pre"
    by (auto simp: escape_quotes_def)
  from next_char_Inr [OF n2] p2 have r2: "rest L2 = dquote # rest L'" by auto
  have "bs_ok (rest L) \<longrightarrow> lexeme t = dquote # pre @ [dquote]"
  proof
    assume "bs_ok (rest L)"
    with hd r have "bs_ok (rest L1)" by (auto dest: bs_ok_tl)
    with p3 t show "lexeme t = dquote # pre @ [dquote]" by (simp add: lexeme_def)
  qed
  with hd r p1 r2 t have "dquote # pre @ [dquote] \<noteq> [] \<and> rest L = (dquote # pre @ [dquote]) @ rest L' \<and>
     tok_wf t \<and> (bs_ok (rest L) \<longrightarrow> lexeme t = dquote # pre @ [dquote])"
    by (simp add: tok_wf_def)
  then show ?thesis unfolding token_covers_def by blast
qed

lemma true_covers:
  "keyword BOOLEAN ''true'' L = Inr (t, L') \<Longrightarrow> rest L = CHR ''t'' # cs \<Longrightarrow> peek 3 L = Some ''rue''
     \<Longrightarrow> token_covers L t L'"
  by (erule keyword_covers) (simp_all add: eval_nat_numeral)

lemma false_covers:
  "keyword BOOLEAN ''false'' L = Inr (t, L') \<Longrightarrow> rest L = CHR ''f'' # cs \<Longrightarrow> peek 4 L = Some ''alse''
     \<Longrightarrow> token_covers L t L'"
  by (erule keyword_covers) (simp_all add: eval_nat_numeral)

lemma null_covers:
  "keyword NULL ''null'' L = Inr (t, L') \<Longrightarrow> rest L = CHR ''n'' # cs \<Longrightarrow> peek 3 L = Some ''ull''
     \<Longrightarrow> token_covers L t L'"
  by (erule keyword_covers) (simp_all add: eval_nat_numeral)

lemma scan_token_covers:
  assumes run: "scan_token c L = Inr (t, L')" and hd: "rest L = c # cs"
  shows "token_covers L t L'"
  using run hd unfolding scan_token_def
  apply (simp split: if_splits)
  apply (erule true_covers false_covers null_covers lex_string_covers comment_covers
      newlines_covers tabs_covers whitespaces_covers single_covers variable_covers number_covers,
      (assumption | simp)+)+
  done

lemma token_covers_shorter: "token_covers L t L' \<Longrightarrow> length (rest L') < length (rest L)"
  by (auto simp: token_covers_def)

lemma next_token_shorter:
  assumes "current_char L = Some c" and "next_token L = Inr (x, L')"
  shows "x \<noteq> None \<and> length (rest L') < length (rest L)"
proof -
  from assms(1) obtain cs where hd: "rest L = c # cs"
    by (auto simp: current_char_def split: list.splits)
  with assms(2) obtain t where "scan_token c L = Inr (t, L')" and "x = Some (t, (row L', col L'))"
    by (auto simp: next_token_def split: sum.splits)
  with scan_token_covers [OF _ hd] show ?thesis
    by (auto dest: token_covers_shorter)
qed

text \<open>
  \<^verbatim>\<open>Lexer.tokenize\<close>:
  \<^verbatim>\<open>while self.current_char is not None: token = self.next_token(); if token is not None: tokens.append(token)\<close>.
\<close>

function tokenize_loop :: "ptoken list \<Rightarrow> Lexer \<Rightarrow> error + ptoken list" where
  "tokenize_loop tokens L =
     (case current_char L of
        None \<Rightarrow> Inr tokens
      | Some c \<Rightarrow>
          (case next_token L of
             Inl e \<Rightarrow> Inl e
           | Inr (None, L') \<Rightarrow> tokenize_loop tokens L'
           | Inr (Some t, L') \<Rightarrow> tokenize_loop (tokens @ [t]) L'))"
  by pat_completeness auto
termination
  by (relation "measure (\<lambda>(tokens, L). length (rest L))")
     (auto dest: next_token_shorter)

declare tokenize_loop.simps [simp del]

definition tokenize :: "string \<Rightarrow> error + ptoken list" where
  "tokenize text = tokenize_loop [] (Lexer_init text)"

subsection \<open>The concrete syntax tree (syntax_tree.py)\<close>

text \<open>
  One constructor for each concrete node class. \<open>Number\<close> holds the parsed value and
  the original text; \<open>Object\<close> holds its children and its \<^verbatim>\<open>dict\<close>, from a key to the
  pair of key node and value node, in insertion order; \<open>Array\<close> holds its children and
  its \<^verbatim>\<open>items\<close>. A Python \<^verbatim>\<open>float\<close> is modelled by the exact rational value of the
  decimal text: rounding to binary64 is not modelled.
\<close>

datatype node =
    String string
  | Number rat string
  | Variable string
  | Boolean bool
  | Null
  | Comment string
  | WhiteSpace
  | NewLine
  | Tab
  | Colon
  | Comma
  | LBrace
  | RBrace
  | LBracket
  | RBracket
  | Object "node list" "(string \<times> node \<times> node) list"
  | Array "node list" "node list"

text \<open>\<^verbatim>\<open>to_alexson\<close> of every node class; a block node joins its children's texts.\<close>

fun to_alexson :: "node \<Rightarrow> string" where
  "to_alexson (String v) = [dquote] @ escape_quotes v @ [dquote]"
| "to_alexson (Number v original_value) = original_value"
| "to_alexson (Variable v) = v"
| "to_alexson (Boolean b) = (if b then ''true'' else ''false'')"
| "to_alexson Null = ''null''"
| "to_alexson (Comment c) = c"
| "to_alexson WhiteSpace = '' ''"
| "to_alexson NewLine = [newline]"
| "to_alexson Tab = [tab]"
| "to_alexson Colon = '':''"
| "to_alexson Comma = '',''"
| "to_alexson LBrace = ''{''"
| "to_alexson RBrace = ''}''"
| "to_alexson LBracket = ''[''"
| "to_alexson RBracket = '']''"
| "to_alexson (Object children d) = concat (map to_alexson children)"
| "to_alexson (Array children items) = concat (map to_alexson children)"

text \<open>
  \<^verbatim>\<open>__eq__\<close>: every class compares the classes first. Literals compare their values,
  \<open>Number\<close> with the tolerance \<^verbatim>\<open>abs(a - b) < 1e-6\<close>; a comment compares its text; the
  other formatting and structural nodes are equal when of one class; a block node
  compares its children as lists, an \<open>Object\<close> also its \<^verbatim>\<open>dict\<close> (equal as Python
  dicts: as many keys, and every key of the one maps to an equal pair in the other), an
  \<open>Array\<close> also its \<^verbatim>\<open>items\<close>.
\<close>

fun node_eq :: "node \<Rightarrow> node \<Rightarrow> bool" where
  "node_eq (String a) y = (case y of String b \<Rightarrow> a = b | _ \<Rightarrow> False)"
| "node_eq (Number a oa) y = (case y of Number b ob \<Rightarrow> \<bar>a - b\<bar> < 1 / 1000000 | _ \<Rightarrow> False)"
| "node_eq (Variable a) y = (case y of Variable b \<Rightarrow> a = b | _ \<Rightarrow> False)"
| "node_eq (Boolean a) y = (case y of Boolean b \<Rightarrow> a = b | _ \<Rightarrow> False)"
| "node_eq Null y = (case y of Null \<Rightarrow> True | _ \<Rightarrow> False)"
| "node_eq (Comment a) y = (case y of Comment b \<Rightarrow> a = b | _ \<Rightarrow> False)"
| "node_eq WhiteSpace y = (case y of WhiteSpace \<Rightarrow> True | _ \<Rightarrow> False)"
| "node_eq NewLine y = (case y of NewLine \<Rightarrow> True | _ \<Rightarrow> False)"
| "node_eq Tab y = (case y of Tab \<Rightarrow> True | _ \<Rightarrow> False)"
| "node_eq Colon y = (case y of Colon \<Rightarrow> True | _ \<Rightarrow> False)"
| "node_eq Comma y = (case y of Comma \<Rightarrow> True | _ \<Rightarrow> False)"
| "node_eq LBrace y = (case y of LBrace \<Rightarrow> True | _ \<Rightarrow> False)"
| "node_eq RBrace y = (case y of RBrace \<Rightarrow> True | _ \<Rightarrow> False)"
| "node_eq LBracket y = (case y of LBracket \<Rightarrow> True | _ \<Rightarrow> False)"
| "node_eq RBracket y = (case y of RBracket \<Rightarrow> True | _ \<Rightarrow> False)"
| "node_eq (Object c1 d1) y =
     (case y of
        Object c2 d2 \<Rightarrow>
          list_all2 node_eq c1 c2 \<and> length d1 = length d2 \<and>
          list_all (\<lambda>(k, kn, v). case map_of d2 k of
                                     None \<Rightarrow> False
                                   | Some (kn2, v2) \<Rightarrow> node_eq kn kn2 \<and> node_eq v v2) d1
      | _ \<Rightarrow> False)"
| "node_eq (Array c1 i1) y =
     (case y of Array c2 i2 \<Rightarrow> list_all2 node_eq c1 c2 \<and> list_all2 node_eq i1 i2 | _ \<Rightarrow> False)"


text \<open>\<^verbatim>\<open>list.index(value)\<close>: the first place whose element equals \<open>value\<close>, by
  \<^verbatim>\<open>element == value\<close>; \<open>None\<close> stands for the \<^verbatim>\<open>ValueError\<close> raised when there is
  none.\<close>

fun list_index :: "node \<Rightarrow> node list \<Rightarrow> nat option" where
  "list_index v [] = None"
| "list_index v (x # xs) = (if node_eq x v then Some 0 else map_option Suc (list_index v xs))"

text \<open>
  \<^verbatim>\<open>Object.__setitem__\<close>: for a key of the \<^verbatim>\<open>dict\<close>, the child at
  \<^verbatim>\<open>children.index(dict[key][1])\<close> is replaced and the \<^verbatim>\<open>dict\<close> entry updated; a
  new key raises \<^verbatim>\<open>NotImplementedError\<close>. Item assignment on a node of another
  class is a \<^verbatim>\<open>TypeError\<close>.
\<close>

fun Object_setitem :: "node \<Rightarrow> string \<Rightarrow> node \<Rightarrow> error + node" where
  "Object_setitem (Object children d) key v =
     (case map_of d key of
        None \<Rightarrow> Inl (NotImplementedError ''Cannot add new key to object yet...'')
      | Some (kn, old) \<Rightarrow>
          (case list_index old children of
             None \<Rightarrow> Inl ValueError
           | Some i \<Rightarrow>
               Inr (Object (children[i := v])
                      (map (\<lambda>(k, e). if k = key then (k, (kn, v)) else (k, e)) d))))"
| "Object_setitem _ key v = Inl TypeError"

text \<open>\<^verbatim>\<open>Object.__getitem__\<close>: \<^verbatim>\<open>self.dict[item][1]\<close>.\<close>

fun Object_getitem :: "node \<Rightarrow> string \<Rightarrow> error + node" where
  "Object_getitem (Object children d) key =
     (case map_of d key of None \<Rightarrow> Inl KeyError | Some (kn, v) \<Rightarrow> Inr v)"
| "Object_getitem _ key = Inl TypeError"

text \<open>A Python list index: \<open>-len \<le> i < len\<close>, the negative ones counting from the end.\<close>

definition py_index :: "int \<Rightarrow> 'a list \<Rightarrow> nat option" where
  "py_index i xs =
     (if 0 \<le> i \<and> i < int (length xs) then Some (nat i)
      else if - int (length xs) \<le> i \<and> i < 0 then Some (nat (i + int (length xs)))
      else None)"

text \<open>\<^verbatim>\<open>Array.__setitem__\<close>: \<^verbatim>\<open>self.items[key] = value\<close>, and nothing else.\<close>

fun Array_setitem :: "node \<Rightarrow> int \<Rightarrow> node \<Rightarrow> error + node" where
  "Array_setitem (Array children items) key v =
     (case py_index key items of
        None \<Rightarrow> Inl IndexError
      | Some i \<Rightarrow> Inr (Array children (items[i := v])))"
| "Array_setitem _ key v = Inl TypeError"

text \<open>\<^verbatim>\<open>Array.__getitem__\<close>: \<^verbatim>\<open>self.items[item]\<close>.\<close>

fun Array_getitem :: "node \<Rightarrow> int \<Rightarrow> error + node" where
  "Array_getitem (Array children items) key =
     (case py_index key items of None \<Rightarrow> Inl IndexError | Some i \<Rightarrow> Inr (items ! i))"
| "Array_getitem _ key = Inl TypeError"

text \<open>
  \<^verbatim>\<open>float(text)\<close> for a text of digits and dots, which is all that \<^verbatim>\<open>Lexer.number\<close>
  puts into a token: digits, then optionally a dot and digits, with a digit somewhere.
  Only the digits 0 to 9 count (\<^verbatim>\<open>float\<close> takes no superscript digit). \<open>None\<close> stands
  for \<^verbatim>\<open>ValueError\<close>.
\<close>

definition ascii_digit :: "char \<Rightarrow> bool" where
  "ascii_digit c = (48 \<le> (of_char c :: nat) \<and> (of_char c :: nat) \<le> 57)"

definition digits_value :: "string \<Rightarrow> nat" where
  "digits_value ds = foldl (\<lambda>acc c. 10 * acc + (of_char c - 48)) 0 ds"

definition float_of :: "string \<Rightarrow> rat option" where
  "float_of s =
     (let ip = takeWhile ascii_digit s; r = dropWhile ascii_digit s in
      case r of
        [] \<Rightarrow> if ip = [] then None else Some (of_nat (digits_value ip))
      | c # fp \<Rightarrow>
          if c = CHR ''.'' \<and> list_all ascii_digit fp \<and> \<not> (ip = [] \<and> fp = [])
          then Some (of_nat (digits_value ip) + of_nat (digits_value fp) / 10 ^ length fp)
          else None)"

text \<open>The constructor \<^verbatim>\<open>Number(value)\<close> for a text:
  \<^verbatim>\<open>self.value = float(value); self.original_value = str(value)\<close>.\<close>

definition Number_init :: "string \<Rightarrow> error + node" where
  "Number_init s = (case float_of s of None \<Rightarrow> Inl ValueError | Some x \<Rightarrow> Inr (Number x s))"

text \<open>
  \<^verbatim>\<open>Root\<close>: its children and the cached \<^verbatim>\<open>primary_obj\<close>.
  \<^verbatim>\<open>Root.get_primary_obj\<close> caches and returns the first child that is a block node,
  \<^verbatim>\<open>None\<close> when there is none.
\<close>

record Root =
  children :: "node list"
  primary_obj :: "node option"

definition Root_init :: Root where
  "Root_init = \<lparr>children = [], primary_obj = None\<rparr>"

fun is_block :: "node \<Rightarrow> bool" where
  "is_block (Object c d) = True"
| "is_block (Array c i) = True"
| "is_block _ = False"

definition get_primary_obj :: "Root \<Rightarrow> node option \<times> Root" where
  "get_primary_obj r =
     (case primary_obj r of
        Some b \<Rightarrow> (Some b, r)
      | None \<Rightarrow> (let found = find is_block (children r) in (found, r\<lparr>primary_obj := found\<rparr>)))"

definition Root_to_alexson :: "Root \<Rightarrow> string" where
  "Root_to_alexson r = concat (map to_alexson (children r))"


subsection \<open>The parser (parser.py, class AlexsonParser)\<close>

text \<open>
  Modelled from the spec: the module \<^verbatim>\<open>config\<close> is imported and its class
  \<^verbatim>\<open>Config\<close> is not among the sources. The parser reads two fields of it, which the
  spec gives as \<^verbatim>\<open>{ allow_trailing_comma: bool, allow_comments: bool }\<close>.
\<close>

record Config =
  allow_trailing_comma :: bool
  allow_comments :: bool

text \<open>
  The parser's state is the list of the tokens from \<^verbatim>\<open>_token_index\<close> on:
  \<^verbatim>\<open>current()\<close> is its head, \<^verbatim>\<open>None\<close> when it is empty, and \<^verbatim>\<open>advance()\<close> drops
  the head.
\<close>

definition current :: "ptoken list \<Rightarrow> ptoken option" where
  "current ts = (case ts of [] \<Rightarrow> None | t # _ \<Rightarrow> Some t)"

definition advance :: "ptoken list \<Rightarrow> ptoken list" where
  "advance ts = tl ts"

text \<open>\<^verbatim>\<open>get_token_pos\<close>: \<^verbatim>\<open>(-1, -1)\<close> for \<^verbatim>\<open>None\<close>, else the recorded position.\<close>

definition get_token_pos :: "ptoken option \<Rightarrow> int \<times> int" where
  "get_token_pos t = (case t of None \<Rightarrow> (- 1, - 1) | Some (tok, pos) \<Rightarrow> pos)"

text \<open>\<^verbatim>\<open>AlexsonParserException(msg, *self.get_token_pos(self.current()))\<close>.\<close>

definition parser_exception :: "string \<Rightarrow> ptoken list \<Rightarrow> error" where
  "parser_exception msg ts =
     AlexsonParserException msg (fst (get_token_pos (current ts))) (snd (get_token_pos (current ts)))"

text \<open>The message \<^verbatim>\<open>f'Unexpected token {self.current()}'\<close> for a current token.\<close>

definition unexpected :: "ptoken \<Rightarrow> string" where
  "unexpected t = ''Unexpected token '' @ Token_str (fst t)"

text \<open>
  The nodes that one formatting token adds in \<^verbatim>\<open>_parse_non_json\<close>: a node for each
  character of a run, a comment node if comments are kept, nothing for a comment
  otherwise.
\<close>

definition non_json_nodes :: "Config \<Rightarrow> Token \<Rightarrow> node list" where
  "non_json_nodes cfg t =
     (if tok_type t = NEWLINES then replicate (length (tok_value t)) NewLine
      else if tok_type t = SPACES then replicate (length (tok_value t)) WhiteSpace
      else if tok_type t = TABS then replicate (length (tok_value t)) Tab
      else if tok_type t = COMMENT \<and> allow_comments cfg then [Comment (tok_value t)]
      else [])"

text \<open>
  The loop of \<^verbatim>\<open>_parse_non_json\<close>,
  \<^verbatim>\<open>while self.current().type in NON_JSON_TYPES: ...; self.advance()\<close>. Its test reads
  \<^verbatim>\<open>self.current().type\<close> with no check for \<^verbatim>\<open>None\<close>: at the end of the tokens it
  raises \<^verbatim>\<open>AttributeError\<close>.
\<close>

fun non_json_loop :: "Config \<Rightarrow> node list \<Rightarrow> ptoken list \<Rightarrow> error + (node list \<times> ptoken list)" where
  "non_json_loop cfg empty_spaces [] = Inl AttributeError"
| "non_json_loop cfg empty_spaces (t # ts) =
     (if tok_type (fst t) \<in> NON_JSON_TYPES
      then non_json_loop cfg (empty_spaces @ non_json_nodes cfg (fst t)) ts
      else Inr (empty_spaces, t # ts))"

text \<open>\<^verbatim>\<open>_parse_non_json\<close>: nothing when there is no current token, else the loop.\<close>

definition parse_non_json :: "Config \<Rightarrow> ptoken list \<Rightarrow> error + (node list \<times> ptoken list)" where
  "parse_non_json cfg ts = (if current ts = None then Inr ([], ts) else non_json_loop cfg [] ts)"

text \<open>
  The body of the loop of \<^verbatim>\<open>_parse_obj\<close> up to the value: formatting, the key
  (a \<open>STRING\<close> token), formatting, the colon, formatting. It returns the nodes to append,
  the key and the tokens left. Every read of \<^verbatim>\<open>self.current().type\<close> at the end of
  the tokens is an \<^verbatim>\<open>AttributeError\<close>.
\<close>

definition member_head :: "Config \<Rightarrow> ptoken list \<Rightarrow> error + (node list \<times> string \<times> ptoken list)" where
  "member_head cfg ts =
     (case parse_non_json cfg ts of
        Inl e \<Rightarrow> Inl e
      | Inr (ws1, ts1) \<Rightarrow>
          (case current ts1 of
             None \<Rightarrow> Inl AttributeError
           | Some k \<Rightarrow>
               if tok_type (fst k) \<noteq> STRING then Inl (parser_exception (unexpected k) ts1)
               else
                 (case parse_non_json cfg (advance ts1) of
                    Inl e \<Rightarrow> Inl e
                  | Inr (ws2, ts2) \<Rightarrow>
                      (case current ts2 of
                         None \<Rightarrow> Inl AttributeError
                       | Some c \<Rightarrow>
                           if tok_type (fst c) \<noteq> COLON then Inl (parser_exception (unexpected c) ts2)
                           else
                             (case parse_non_json cfg (advance ts2) of
                                Inl e \<Rightarrow> Inl e
                              | Inr (ws3, ts3) \<Rightarrow>
                                  Inr (ws1 @ [String (tok_value (fst k))] @ ws2 @ [Colon] @ ws3,
                                       tok_value (fst k), ts3))))))"

text \<open>
  The body of the loop of \<^verbatim>\<open>_parse_obj\<close> after the value is registered: formatting,
  then a comma (consumed) or a closing brace (left), anything else being an error, then
  formatting, then the test
  \<^verbatim>\<open>if self.config.allow_trailing_comma and self.current().type == TokenType.RBRACE: break\<close>.
  It returns the nodes to append, whether the loop was left by \<^verbatim>\<open>break\<close>, and the
  tokens left.
\<close>

definition member_tail :: "Config \<Rightarrow> ptoken list \<Rightarrow> error + (node list \<times> bool \<times> ptoken list)" where
  "member_tail cfg ts =
     (case parse_non_json cfg ts of
        Inl e \<Rightarrow> Inl e
      | Inr (ws4, ts4) \<Rightarrow>
          (case current ts4 of
             None \<Rightarrow> Inl AttributeError
           | Some t \<Rightarrow>
               if tok_type (fst t) \<noteq> COMMA \<and> tok_type (fst t) \<noteq> RBRACE
               then Inl (parser_exception (unexpected t) ts4)
               else
                 (case parse_non_json cfg (if tok_type (fst t) = COMMA then advance ts4 else ts4) of
                    Inl e \<Rightarrow> Inl e
                  | Inr (ws5, ts5) \<Rightarrow>
                      if allow_trailing_comma cfg
                      then (case current ts5 of
                              None \<Rightarrow> Inl AttributeError
                            | Some t5 \<Rightarrow>
                                Inr (ws4 @ (if tok_type (fst t) = COMMA then [Comma] else []) @ ws5,
                                     tok_type (fst t5) = RBRACE, ts5))
                      else Inr (ws4 @ (if tok_type (fst t) = COMMA then [Comma] else []) @ ws5,
                                False, ts5))))"

text \<open>
  The literal branches of \<^verbatim>\<open>parse_value\<close>, for a current token that opens no
  container: the node, or the error. (\<^verbatim>\<open>parse_value\<close> then advances.)
\<close>

definition literal_value :: "ptoken \<Rightarrow> ptoken list \<Rightarrow> error + node" where
  "literal_value t ts =
     (if tok_type (fst t) = STRING then Inr (String (tok_value (fst t)))
      else if tok_type (fst t) = NUMBER then
        (case float_of (tok_value (fst t)) of
           None \<Rightarrow> Inl (parser_exception (''Invalid number value '' @ tok_value (fst t)) ts)
         | Some x \<Rightarrow> Inr (Number x (tok_value (fst t))))
      else if tok_type (fst t) = NULL then Inr Null
      else if tok_type (fst t) = BOOLEAN then
        (if tok_value (fst t) = ''true'' then Inr (Boolean True)
         else if tok_value (fst t) = ''false'' then Inr (Boolean False)
         else Inl (parser_exception (''Invalid boolean value '' @ tok_value (fst t)) ts))
      else if tok_type (fst t) = VARIABLE then Inr (Variable (tok_value (fst t)))
      else Inl (parser_exception (unexpected t) ts))"

text \<open>
  \<^verbatim>\<open>parse_value\<close>, \<^verbatim>\<open>_parse_obj\<close> and \<^verbatim>\<open>_parse_array\<close> call each other, and
  the two loops continue on the tokens that a nested call leaves. The first argument is
  fuel: every call spends one unit, and \<open>None\<close> is "out of fuel". \<open>parse_fuel_enough\<close>
  below shows that the fuel \<open>parse\<close> starts with is never used up.

  \<open>obj_loop\<close> is the \<^verbatim>\<open>while self.current().type != TokenType.RBRACE\<close> loop of
  \<^verbatim>\<open>_parse_obj\<close>, over the children and the \<^verbatim>\<open>dict\<close> built so far; \<open>array_loop\<close> is
  the \<^verbatim>\<open>while self.current().type != TokenType.RBRACKET\<close> loop of \<^verbatim>\<open>_parse_array\<close>,
  over the children and the \<^verbatim>\<open>items\<close>.
\<close>

function parse_value :: "nat \<Rightarrow> Config \<Rightarrow> ptoken list \<Rightarrow> (error + (node \<times> ptoken list)) option"
  and parse_obj :: "nat \<Rightarrow> Config \<Rightarrow> ptoken list \<Rightarrow> (error + (node \<times> ptoken list)) option"
  and obj_loop :: "nat \<Rightarrow> Config \<Rightarrow> node list \<Rightarrow> (string \<times> node \<times> node) list \<Rightarrow> ptoken list \<Rightarrow>
        (error + (node list \<times> (string \<times> node \<times> node) list \<times> ptoken list)) option"
  and parse_array :: "nat \<Rightarrow> Config \<Rightarrow> ptoken list \<Rightarrow> (error + (node \<times> ptoken list)) option"
  and array_loop :: "nat \<Rightarrow> Config \<Rightarrow> node list \<Rightarrow> node list \<Rightarrow> ptoken list \<Rightarrow>
        (error + (node list \<times> node list \<times> ptoken list)) option"
where
  "parse_value 0 cfg ts = None"
| "parse_value (Suc n) cfg ts =
     (case current ts of
        None \<Rightarrow> Some (Inl AttributeError)
      | Some t \<Rightarrow>
          if tok_type (fst t) = LBRACE then parse_obj n cfg ts
          else if tok_type (fst t) = LBRACKET then parse_array n cfg ts
          else (case literal_value t ts of
                  Inl e \<Rightarrow> Some (Inl e)
                | Inr v \<Rightarrow> Some (Inr (v, advance ts))))"
| "parse_obj 0 cfg ts = None"
| "parse_obj (Suc n) cfg ts =
     (case current ts of
        None \<Rightarrow> Some (Inl AttributeError)
      | Some t \<Rightarrow>
          if tok_type (fst t) \<noteq> LBRACE
          then Some (Inl (parser_exception
                 (unexpected t @ '', expecting '' @ [dquote] @ ''{'' @ [dquote] @ '' here.'') ts))
          else (case obj_loop n cfg [LBrace] [] (advance ts) of
                  None \<Rightarrow> None
                | Some (Inl e) \<Rightarrow> Some (Inl e)
                | Some (Inr (chs, d, ts')) \<Rightarrow>
                    Some (Inr (Object (chs @ [RBrace]) d, advance ts'))))"
| "obj_loop 0 cfg chs d ts = None"
| "obj_loop (Suc n) cfg chs d ts =
     (case current ts of
        None \<Rightarrow> Some (Inl AttributeError)
      | Some t \<Rightarrow>
          if tok_type (fst t) = RBRACE then Some (Inr (chs, d, ts))
          else
            (case member_head cfg ts of
               Inl e \<Rightarrow> Some (Inl e)
             | Inr (ns1, key, ts1) \<Rightarrow>
                 (case parse_value n cfg ts1 of
                    None \<Rightarrow> None
                  | Some (Inl e) \<Rightarrow> Some (Inl e)
                  | Some (Inr (v, ts2)) \<Rightarrow>
                      if key \<in> set (map fst d)
                      then Some (Inl (parser_exception (''Duplicate key '' @ key) ts2))
                      else
                        (case member_tail cfg ts2 of
                           Inl e \<Rightarrow> Some (Inl e)
                         | Inr (ns2, stop, ts3) \<Rightarrow>
                             if stop
                             then Some (Inr (chs @ ns1 @ [v] @ ns2,
                                             d @ [(key, (String key, v))], ts3))
                             else obj_loop n cfg (chs @ ns1 @ [v] @ ns2)
                                    (d @ [(key, (String key, v))]) ts3))))"
| "parse_array 0 cfg ts = None"
| "parse_array (Suc n) cfg ts =
     (case array_loop n cfg [LBracket] [] (advance ts) of
        None \<Rightarrow> None
      | Some (Inl e) \<Rightarrow> Some (Inl e)
      | Some (Inr (chs, items, ts')) \<Rightarrow>
          Some (Inr (Array (chs @ [RBracket]) items, advance ts')))"
| "array_loop 0 cfg chs items ts = None"
| "array_loop (Suc n) cfg chs items ts =
     (case current ts of
        None \<Rightarrow> Some (Inl AttributeError)
      | Some t \<Rightarrow>
          if tok_type (fst t) = RBRACKET then Some (Inr (chs, items, ts))
          else
            (case parse_non_json cfg ts of
               Inl e \<Rightarrow> Some (Inl e)
             | Inr (ws1, ts1) \<Rightarrow>
                 (case parse_value n cfg ts1 of
                    None \<Rightarrow> None
                  | Some (Inl e) \<Rightarrow> Some (Inl e)
                  | Some (Inr (v, ts2)) \<Rightarrow>
                      (case parse_non_json cfg ts2 of
                         Inl e \<Rightarrow> Some (Inl e)
                       | Inr (ws2, ts3) \<Rightarrow>
                           (case current ts3 of
                              None \<Rightarrow> Some (Inl AttributeError)
                            | Some t3 \<Rightarrow>
                                if tok_type (fst t3) = COMMA
                                then array_loop n cfg (chs @ ws1 @ [v] @ ws2 @ [Comma])
                                       (items @ [v]) (advance ts3)
                                else if tok_type (fst t3) \<noteq> RBRACKET
                                then Some (Inl (parser_exception
                                       (unexpected t3 @ '', expecting '' @ [dquote] @ '','' @ [dquote] @
                                        '' or '' @ [dquote] @ '']'' @ [dquote] @ '' here.'') ts3))
                                else array_loop n cfg (chs @ ws1 @ [v] @ ws2)
                                       (items @ [v]) ts3)))))"
  by pat_completeness auto


termination
  by (relation "measure (\<lambda>x. case x of
        Inl (Inl (n, _)) \<Rightarrow> n
      | Inl (Inr (n, _)) \<Rightarrow> n
      | Inr (Inl (n, _)) \<Rightarrow> n
      | Inr (Inr (Inl (n, _))) \<Rightarrow> n
      | Inr (Inr (Inr (n, _))) \<Rightarrow> n)") simp_all


declare parse_value.simps [simp del] parse_obj.simps [simp del] obj_loop.simps [simp del]
  parse_array.simps [simp del] array_loop.simps [simp del]

text \<open>
  \<^verbatim>\<open>AlexsonParser.parse\<close> on the token list: an empty root for no token; formatting,
  the root object or array, formatting; then \<^verbatim>\<open>assert self.current() is None\<close>.
\<close>

definition parse_tokens :: "Config \<Rightarrow> ptoken list \<Rightarrow> (error + Root) option" where
  "parse_tokens cfg ts =
     (if current ts = None then Some (Inr Root_init)
      else
        (case parse_non_json cfg ts of
           Inl e \<Rightarrow> Some (Inl e)
         | Inr (ws1, ts1) \<Rightarrow>
             (case current ts1 of
                None \<Rightarrow> Some (Inr (Root_init\<lparr>children := ws1\<rparr>))
              | Some t \<Rightarrow>
                  (case (if tok_type (fst t) = LBRACE then parse_obj (3 * length ts + 3) cfg ts1
                         else if tok_type (fst t) = LBRACKET then parse_array (3 * length ts + 3) cfg ts1
                         else Some (Inl (parser_exception
                                (unexpected t @
                                 '', expecting Object or Array at the top level of the alexson string'')
                                ts1))) of
                     None \<Rightarrow> None
                   | Some (Inl e) \<Rightarrow> Some (Inl e)
                   | Some (Inr (block, ts2)) \<Rightarrow>
                       (case parse_non_json cfg ts2 of
                          Inl e \<Rightarrow> Some (Inl e)
                        | Inr (ws2, ts3) \<Rightarrow>
                            if current ts3 \<noteq> None then Some (Inl AssertionError)
                            else Some (Inr (Root_init\<lparr>children := ws1 @ [block] @ ws2\<rparr>)))))))"

text \<open>
  \<^verbatim>\<open>AlexsonParser(text, config).parse()\<close>: the constructor runs the scanner, whose
  error ends the parse.
\<close>

definition parse :: "Config \<Rightarrow> string \<Rightarrow> (error + Root) option" where
  "parse cfg text =
     (case tokenize text of
        Inl e \<Rightarrow> Some (Inl e)
      | Inr ts \<Rightarrow> parse_tokens cfg ts)"

section \<open>What a parse consumes and produces\<close>

text \<open>
  The text of a token list and of a node list, and the tokens of canonical form.
\<close>

definition lexemes :: "ptoken list \<Rightarrow> string" where
  "lexemes ts = concat (map (\<lambda>t. lexeme (fst t)) ts)"

definition toks_wf :: "ptoken list \<Rightarrow> bool" where
  "toks_wf ts = list_all (\<lambda>t. tok_wf (fst t)) ts"

definition nodes_text :: "node list \<Rightarrow> string" where
  "nodes_text ns = concat (map to_alexson ns)"

lemma lexemes_simps [simp]:
  "lexemes [] = []" "lexemes (t # ts) = lexeme (fst t) @ lexemes ts"
  "lexemes (xs @ ys) = lexemes xs @ lexemes ys"
  by (simp_all add: lexemes_def)

lemma toks_wf_simps [simp]:
  "toks_wf [] = True" "toks_wf (t # ts) = (tok_wf (fst t) \<and> toks_wf ts)"
  "toks_wf (xs @ ys) = (toks_wf xs \<and> toks_wf ys)"
  by (simp_all add: toks_wf_def)

lemma nodes_text_simps [simp]:
  "nodes_text [] = []" "nodes_text (n # ns) = to_alexson n @ nodes_text ns"
  "nodes_text (xs @ ys) = nodes_text xs @ nodes_text ys"
  by (simp_all add: nodes_text_def)

lemma tokenize_loop_covers:
  "tokenize_loop acc L = Inr ts \<Longrightarrow>
   \<exists>new. ts = acc @ new \<and> toks_wf new \<and> (bs_ok (rest L) \<longrightarrow> lexemes new = rest L)"
proof (induction acc L rule: tokenize_loop.induct)
  case (1 tokens L)
  note unf = "1.prems" [unfolded tokenize_loop.simps [of tokens L]]
  show ?case
  proof (cases "rest L")
    case Nil
    with unf show ?thesis by (simp add: current_char_def)
  next
    case (Cons c cs)
    then have cc: "current_char L = Some c" by (simp add: current_char_def)
    from unf cc obtain x L' where nt: "next_token L = Inr (x, L')"
      by (auto split: sum.splits)
    from nt Cons obtain t where st: "scan_token c L = Inr (t, L')" and x: "x = Some (t, (row L', col L'))"
      by (auto simp: next_token_def split: sum.splits)
    from unf cc nt x have run: "tokenize_loop (tokens @ [(t, (row L', col L'))]) L' = Inr ts"
      by simp
    from "1.IH"(2) [OF cc nt [unfolded x] refl refl run] obtain new where
      new: "ts = (tokens @ [(t, (row L', col L'))]) @ new" "toks_wf new"
        "bs_ok (rest L') \<longrightarrow> lexemes new = rest L'"
      by blast
    from scan_token_covers [OF st Cons] obtain pre where
      pre: "rest L = pre @ rest L'" "tok_wf t" "bs_ok (rest L) \<longrightarrow> lexeme t = pre"
      by (auto simp: token_covers_def)
    have "bs_ok (rest L) \<longrightarrow> lexemes ((t, (row L', col L')) # new) = rest L"
    proof
      assume ok: "bs_ok (rest L)"
      with pre(1) have "bs_ok (rest L')" by (auto dest: bs_ok_append)
      with new(3) pre ok show "lexemes ((t, (row L', col L')) # new) = rest L" by simp
    qed
    with new pre have "ts = tokens @ ((t, (row L', col L')) # new) \<and> toks_wf ((t, (row L', col L')) # new) \<and>
        (bs_ok (rest L) \<longrightarrow> lexemes ((t, (row L', col L')) # new) = rest L)"
      by simp
    then show ?thesis by blast
  qed
qed

lemma tokenize_covers:
  "tokenize text = Inr ts \<Longrightarrow> toks_wf ts \<and> (bs_ok text \<longrightarrow> lexemes ts = text)"
  using tokenize_loop_covers [of "[]" "Lexer_init text" ts]
  by (auto simp: tokenize_def Lexer_init_def)

text \<open>
  \<open>spans cfg ts ts' txt\<close>: the tokens \<open>ts'\<close> are what is left of \<open>ts\<close> after a prefix,
  and with comments kept and that prefix canonical, \<open>txt\<close> is the text of the prefix.
\<close>

definition spans :: "Config \<Rightarrow> ptoken list \<Rightarrow> ptoken list \<Rightarrow> string \<Rightarrow> bool" where
  "spans cfg ts ts' txt =
     (\<exists>pre. ts = pre @ ts' \<and> (allow_comments cfg \<longrightarrow> toks_wf pre \<longrightarrow> txt = lexemes pre))"

lemma spans_refl: "spans cfg ts ts []"
  by (simp add: spans_def)

lemma spans_trans: "spans cfg ts ts' a \<Longrightarrow> spans cfg ts' ts'' b \<Longrightarrow> spans cfg ts ts'' (a @ b)"
  unfolding spans_def
proof -
  assume "\<exists>pre. ts = pre @ ts' \<and> (allow_comments cfg \<longrightarrow> toks_wf pre \<longrightarrow> a = lexemes pre)"
    and "\<exists>pre. ts' = pre @ ts'' \<and> (allow_comments cfg \<longrightarrow> toks_wf pre \<longrightarrow> b = lexemes pre)"
  then obtain p q where p: "ts = p @ ts'" "allow_comments cfg \<longrightarrow> toks_wf p \<longrightarrow> a = lexemes p"
    and q: "ts' = q @ ts''" "allow_comments cfg \<longrightarrow> toks_wf q \<longrightarrow> b = lexemes q"
    by blast
  then have "ts = (p @ q) @ ts'' \<and> (allow_comments cfg \<longrightarrow> toks_wf (p @ q) \<longrightarrow> a @ b = lexemes (p @ q))"
    by simp
  then show "\<exists>pre. ts = pre @ ts'' \<and> (allow_comments cfg \<longrightarrow> toks_wf pre \<longrightarrow> a @ b = lexemes pre)"
    by blast
qed

lemma spans_step:
  assumes "current ts = Some t" and "allow_comments cfg \<Longrightarrow> tok_wf (fst t) \<Longrightarrow> txt = lexeme (fst t)"
  shows "spans cfg ts (advance ts) txt"
proof -
  from assms(1) have "ts = [t] @ advance ts" by (cases ts) (auto simp: current_def advance_def)
  moreover from assms(2) have "allow_comments cfg \<longrightarrow> toks_wf [t] \<longrightarrow> txt = lexemes [t]" by simp
  ultimately show ?thesis unfolding spans_def by blast
qed

lemma spans_length: "spans cfg ts ts' a \<Longrightarrow> length ts' \<le> length ts"
  by (auto simp: spans_def)

lemma current_advance_length: "current ts = Some t \<Longrightarrow> length (advance ts) < length ts"
  by (cases ts) (auto simp: current_def advance_def)

lemma nodes_text_replicate: "nodes_text (replicate n x) = concat (replicate n (to_alexson x))"
  by (induction n) simp_all

lemma concat_replicate_single: "concat (replicate n [c]) = replicate n c"
  by (induction n) simp_all

lemma non_json_nodes_text:
  assumes "tok_type t \<in> NON_JSON_TYPES" and "allow_comments cfg" and "tok_wf t"
  shows "nodes_text (non_json_nodes cfg t) = lexeme t"
  using assms
  by (auto simp: NON_JSON_TYPES_def non_json_nodes_def tok_wf_def lexeme_def nodes_text_replicate
      concat_replicate_single)

lemma non_json_loop_spans:
  "non_json_loop cfg acc ts = Inr (ns, ts') \<Longrightarrow> \<exists>new. ns = acc @ new \<and> spans cfg ts ts' (nodes_text new)"
proof (induction ts arbitrary: acc)
  case Nil
  then show ?case by simp
next
  case (Cons t ts)
  show ?case
  proof (cases "tok_type (fst t) \<in> NON_JSON_TYPES")
    case False
    with Cons.prems have "ns = acc @ [] \<and> spans cfg (t # ts) ts' (nodes_text [])"
      by (simp add: spans_refl)
    then show ?thesis by blast
  next
    case True
    with Cons.prems have "non_json_loop cfg (acc @ non_json_nodes cfg (fst t)) ts = Inr (ns, ts')"
      by simp
    from Cons.IH [OF this] obtain new where new: "ns = (acc @ non_json_nodes cfg (fst t)) @ new"
      and sp: "spans cfg ts ts' (nodes_text new)" by blast
    have "spans cfg (t # ts) (advance (t # ts)) (nodes_text (non_json_nodes cfg (fst t)))"
    proof (rule spans_step)
      show "current (t # ts) = Some t" by (simp add: current_def)
    next
      assume "allow_comments cfg" "tok_wf (fst t)"
      with True show "nodes_text (non_json_nodes cfg (fst t)) = lexeme (fst t)"
        by (rule non_json_nodes_text)
    qed
    then have "spans cfg (t # ts) ts (nodes_text (non_json_nodes cfg (fst t)))"
      by (simp add: advance_def)
    from spans_trans [OF this sp] new
    have "ns = acc @ (non_json_nodes cfg (fst t) @ new) \<and>
        spans cfg (t # ts) ts' (nodes_text (non_json_nodes cfg (fst t) @ new))"
      by simp
    then show ?thesis by blast
  qed
qed

lemma parse_non_json_spans:
  "parse_non_json cfg ts = Inr (ns, ts') \<Longrightarrow> spans cfg ts ts' (nodes_text ns)"
  by (auto simp: parse_non_json_def spans_refl split: if_splits dest: non_json_loop_spans)

lemma key_text:
  "tok_type (fst k) = STRING \<Longrightarrow> to_alexson (String (tok_value (fst k))) = lexeme (fst k)"
  by (simp add: lexeme_def)

lemma member_head_spans:
  assumes "member_head cfg ts = Inr (ns, key, ts')"
  shows "spans cfg ts ts' (nodes_text ns) \<and> length ts' < length ts"
proof -
  from assms obtain ws1 ts1 k ws2 ts2 c ws3 where
    p1: "parse_non_json cfg ts = Inr (ws1, ts1)" and k: "current ts1 = Some k"
    and kt: "tok_type (fst k) = STRING"
    and p2: "parse_non_json cfg (advance ts1) = Inr (ws2, ts2)" and c: "current ts2 = Some c"
    and ct: "tok_type (fst c) = COLON"
    and p3: "parse_non_json cfg (advance ts2) = Inr (ws3, ts')"
    and ns: "ns = ws1 @ [String (tok_value (fst k))] @ ws2 @ [Colon] @ ws3"
    unfolding member_head_def
    by (auto split: sum.splits option.splits if_splits prod.splits)
  have s1: "spans cfg ts ts1 (nodes_text ws1)" by (rule parse_non_json_spans [OF p1])
  have s2: "spans cfg ts1 (advance ts1) (nodes_text [String (tok_value (fst k))])"
  proof (rule spans_step [OF k])
    from kt show "nodes_text [String (tok_value (fst k))] = lexeme (fst k)"
      by (simp add: lexeme_def)
  qed
  have s3: "spans cfg (advance ts1) ts2 (nodes_text ws2)" by (rule parse_non_json_spans [OF p2])
  have s4: "spans cfg ts2 (advance ts2) (nodes_text [Colon])"
  proof (rule spans_step [OF c])
    assume "tok_wf (fst c)"
    with ct show "nodes_text [Colon] = lexeme (fst c)"
      by (simp add: tok_wf_def lexeme_def)
  qed
  have s5: "spans cfg (advance ts2) ts' (nodes_text ws3)" by (rule parse_non_json_spans [OF p3])
  from spans_trans [OF s1 spans_trans [OF s2 spans_trans [OF s3 spans_trans [OF s4 s5]]]] ns
  have "spans cfg ts ts' (nodes_text ns)" by simp
  moreover from spans_length [OF s1] current_advance_length [OF k] spans_length [OF s3]
    current_advance_length [OF c] spans_length [OF s5]
  have "length ts' < length ts" by linarith
  ultimately show ?thesis by blast
qed

lemma member_tail_spans:
  assumes "member_tail cfg ts = Inr (ns, stop, ts')"
  shows "spans cfg ts ts' (nodes_text ns) \<and> (stop \<longrightarrow> (\<exists>t. current ts' = Some t \<and> tok_type (fst t) = RBRACE))"
proof -
  from assms obtain ws4 ts4 t ws5 where
    p1: "parse_non_json cfg ts = Inr (ws4, ts4)" and t: "current ts4 = Some t"
    and tt: "tok_type (fst t) = COMMA \<or> tok_type (fst t) = RBRACE"
    and p2: "parse_non_json cfg (if tok_type (fst t) = COMMA then advance ts4 else ts4) = Inr (ws5, ts')"
    and ns: "ns = ws4 @ (if tok_type (fst t) = COMMA then [Comma] else []) @ ws5"
    and stop: "stop \<longrightarrow> (\<exists>t. current ts' = Some t \<and> tok_type (fst t) = RBRACE)"
    unfolding member_tail_def
    by (auto split: sum.splits option.splits if_splits prod.splits)
  have s1: "spans cfg ts ts4 (nodes_text ws4)" by (rule parse_non_json_spans [OF p1])
  have s2: "spans cfg ts4 (if tok_type (fst t) = COMMA then advance ts4 else ts4)
      (nodes_text (if tok_type (fst t) = COMMA then [Comma] else []))"
  proof (cases "tok_type (fst t) = COMMA")
    case True
    have "spans cfg ts4 (advance ts4) (nodes_text [Comma])"
    proof (rule spans_step [OF t])
      assume "tok_wf (fst t)"
      with True show "nodes_text [Comma] = lexeme (fst t)"
        by (simp add: tok_wf_def lexeme_def)
    qed
    with True show ?thesis by simp
  next
    case False
    then show ?thesis by (simp add: spans_refl)
  qed
  have s3: "spans cfg (if tok_type (fst t) = COMMA then advance ts4 else ts4) ts' (nodes_text ws5)"
    by (rule parse_non_json_spans [OF p2])
  from spans_trans [OF s1 spans_trans [OF s2 s3]] ns have "spans cfg ts ts' (nodes_text ns)"
    by simp
  with stop show ?thesis by blast
qed

lemma literal_value_text:
  "literal_value t ts = Inr v \<Longrightarrow> tok_wf (fst t) \<Longrightarrow> to_alexson v = lexeme (fst t)"
  by (auto simp: literal_value_def tok_wf_def lexeme_def split: if_splits option.splits)

text \<open>
  What a successful call of each parsing function consumes and produces, for a given
  fuel.
\<close>

definition value_ok :: "nat \<Rightarrow> Config \<Rightarrow> bool" where
  "value_ok n cfg =
     (\<forall>ts v ts'. parse_value n cfg ts = Some (Inr (v, ts')) \<longrightarrow>
        spans cfg ts ts' (to_alexson v) \<and> length ts' < length ts)"

definition obj_ok :: "nat \<Rightarrow> Config \<Rightarrow> bool" where
  "obj_ok n cfg =
     (\<forall>ts v ts'. parse_obj n cfg ts = Some (Inr (v, ts')) \<longrightarrow>
        spans cfg ts ts' (to_alexson v) \<and> length ts' < length ts)"

definition obj_loop_ok :: "nat \<Rightarrow> Config \<Rightarrow> bool" where
  "obj_loop_ok n cfg =
     (\<forall>chs d ts chs' d' ts'. obj_loop n cfg chs d ts = Some (Inr (chs', d', ts')) \<longrightarrow>
        (\<exists>new. chs' = chs @ new \<and> spans cfg ts ts' (nodes_text new)) \<and>
        (\<exists>t. current ts' = Some t \<and> tok_type (fst t) = RBRACE))"

definition array_ok :: "nat \<Rightarrow> Config \<Rightarrow> bool" where
  "array_ok n cfg =
     (\<forall>ts t v ts'. current ts = Some t \<longrightarrow> tok_type (fst t) = LBRACKET \<longrightarrow>
        parse_array n cfg ts = Some (Inr (v, ts')) \<longrightarrow>
        spans cfg ts ts' (to_alexson v) \<and> length ts' < length ts)"

definition array_loop_ok :: "nat \<Rightarrow> Config \<Rightarrow> bool" where
  "array_loop_ok n cfg =
     (\<forall>chs items ts chs' items' ts'. array_loop n cfg chs items ts = Some (Inr (chs', items', ts')) \<longrightarrow>
        (\<exists>new. chs' = chs @ new \<and> spans cfg ts ts' (nodes_text new)) \<and>
        (\<exists>t. current ts' = Some t \<and> tok_type (fst t) = RBRACKET))"

lemma value_ok_step:
  assumes o: "obj_ok n cfg" and a: "array_ok n cfg"
  shows "value_ok (Suc n) cfg"
  unfolding value_ok_def
proof (intro allI impI)
  fix ts v ts'
  assume run: "parse_value (Suc n) cfg ts = Some (Inr (v, ts'))"
  then obtain t where cur: "current ts = Some t"
    by (auto simp: parse_value.simps split: option.splits)
  show "spans cfg ts ts' (to_alexson v) \<and> length ts' < length ts"
  proof (cases "tok_type (fst t) = LBRACE")
    case True
    with run cur have "parse_obj n cfg ts = Some (Inr (v, ts'))" by (simp add: parse_value.simps)
    with o show ?thesis by (simp add: obj_ok_def)
  next
    case nb: False
    show ?thesis
    proof (cases "tok_type (fst t) = LBRACKET")
      case True
      with run cur nb have "parse_array n cfg ts = Some (Inr (v, ts'))" by (simp add: parse_value.simps)
      with a cur True show ?thesis unfolding array_ok_def by blast
    next
      case False
      with run cur nb have lv: "literal_value t ts = Inr v" and ts': "ts' = advance ts"
        by (auto simp: parse_value.simps split: sum.splits)
      have "spans cfg ts (advance ts) (to_alexson v)"
      proof (rule spans_step [OF cur])
        assume "tok_wf (fst t)"
        with lv show "to_alexson v = lexeme (fst t)" by (rule literal_value_text)
      qed
      with ts' current_advance_length [OF cur] show ?thesis by simp
    qed
  qed
qed

lemma obj_ok_step:
  assumes l: "obj_loop_ok n cfg"
  shows "obj_ok (Suc n) cfg"
  unfolding obj_ok_def
proof (intro allI impI)
  fix ts v ts'
  assume run: "parse_obj (Suc n) cfg ts = Some (Inr (v, ts'))"
  then obtain t chs d ts1 where cur: "current ts = Some t" and ty: "tok_type (fst t) = LBRACE"
    and loop: "obj_loop n cfg [LBrace] [] (advance ts) = Some (Inr (chs, d, ts1))"
    and v: "v = Object (chs @ [RBrace]) d" and ts': "ts' = advance ts1"
    by (auto simp: parse_obj.simps split: option.splits sum.splits if_splits)
  from l loop obtain new t1 where new: "chs = [LBrace] @ new"
    and sp: "spans cfg (advance ts) ts1 (nodes_text new)"
    and c1: "current ts1 = Some t1" and t1: "tok_type (fst t1) = RBRACE"
    unfolding obj_loop_ok_def by blast
  have s1: "spans cfg ts (advance ts) (nodes_text [LBrace])"
  proof (rule spans_step [OF cur])
    assume "tok_wf (fst t)"
    with ty show "nodes_text [LBrace] = lexeme (fst t)" by (simp add: tok_wf_def lexeme_def)
  qed
  have s3: "spans cfg ts1 (advance ts1) (nodes_text [RBrace])"
  proof (rule spans_step [OF c1])
    assume "tok_wf (fst t1)"
    with t1 show "nodes_text [RBrace] = lexeme (fst t1)" by (simp add: tok_wf_def lexeme_def)
  qed
  from spans_trans [OF s1 spans_trans [OF sp s3]] v new ts'
  have "spans cfg ts ts' (to_alexson v)" by (simp add: nodes_text_def)
  moreover from current_advance_length [OF cur] spans_length [OF sp] current_advance_length [OF c1] ts'
  have "length ts' < length ts" by simp
  ultimately show "spans cfg ts ts' (to_alexson v) \<and> length ts' < length ts" by blast
qed

lemma obj_loop_ok_step:
  assumes pv: "value_ok n cfg" and l: "obj_loop_ok n cfg"
  shows "obj_loop_ok (Suc n) cfg"
  unfolding obj_loop_ok_def
proof (intro allI impI)
  fix chs d ts chs' d' ts'
  assume run: "obj_loop (Suc n) cfg chs d ts = Some (Inr (chs', d', ts'))"
  then obtain t where cur: "current ts = Some t"
    by (auto simp: obj_loop.simps split: option.splits)
  show "(\<exists>new. chs' = chs @ new \<and> spans cfg ts ts' (nodes_text new)) \<and>
        (\<exists>t. current ts' = Some t \<and> tok_type (fst t) = RBRACE)"
  proof (cases "tok_type (fst t) = RBRACE")
    case True
    with run cur have "chs' = chs @ [] \<and> spans cfg ts ts' (nodes_text [])" and "ts' = ts"
      by (simp_all add: obj_loop.simps spans_refl)
    with cur True show ?thesis by blast
  next
    case False
    with run cur obtain ns1 key ts1 v ts2 ns2 stop ts3 where
      mh: "member_head cfg ts = Inr (ns1, key, ts1)"
      and val: "parse_value n cfg ts1 = Some (Inr (v, ts2))"
      and mt: "member_tail cfg ts2 = Inr (ns2, stop, ts3)"
      and fin: "(if stop then Some (Inr (chs @ ns1 @ [v] @ ns2, d @ [(key, (String key, v))], ts3))
                 else obj_loop n cfg (chs @ ns1 @ [v] @ ns2) (d @ [(key, (String key, v))]) ts3)
                = Some (Inr (chs', d', ts'))"
      by (auto simp: obj_loop.simps split: option.splits sum.splits if_splits prod.splits)
    from member_head_spans [OF mh] have s1: "spans cfg ts ts1 (nodes_text ns1)" by simp
    from pv val have s2: "spans cfg ts1 ts2 (nodes_text [v])" by (simp add: value_ok_def)
    from member_tail_spans [OF mt] have s3: "spans cfg ts2 ts3 (nodes_text ns2)"
      and st: "stop \<longrightarrow> (\<exists>t. current ts3 = Some t \<and> tok_type (fst t) = RBRACE)" by simp_all
    from spans_trans [OF s1 spans_trans [OF s2 s3]]
    have body: "spans cfg ts ts3 (nodes_text (ns1 @ [v] @ ns2))" by simp
    show ?thesis
    proof (cases stop)
      case True
      with fin have "chs' = chs @ (ns1 @ [v] @ ns2)" and "ts' = ts3" by simp_all
      with body st True show ?thesis by blast
    next
      case False
      with fin have "obj_loop n cfg (chs @ ns1 @ [v] @ ns2) (d @ [(key, (String key, v))]) ts3
          = Some (Inr (chs', d', ts'))" by simp
      with l obtain new where new: "chs' = (chs @ ns1 @ [v] @ ns2) @ new"
        and sp: "spans cfg ts3 ts' (nodes_text new)"
        and rb: "\<exists>t. current ts' = Some t \<and> tok_type (fst t) = RBRACE"
        unfolding obj_loop_ok_def by blast
      from spans_trans [OF body sp] new
      have "chs' = chs @ ((ns1 @ [v] @ ns2) @ new) \<and> spans cfg ts ts' (nodes_text ((ns1 @ [v] @ ns2) @ new))"
        by simp
      with rb show ?thesis by blast
    qed
  qed
qed

lemma array_ok_step:
  assumes l: "array_loop_ok n cfg"
  shows "array_ok (Suc n) cfg"
  unfolding array_ok_def
proof (intro allI impI)
  fix ts t v ts'
  assume cur: "current ts = Some t" and ty: "tok_type (fst t) = LBRACKET"
    and run: "parse_array (Suc n) cfg ts = Some (Inr (v, ts'))"
  then obtain chs items ts1 where
    loop: "array_loop n cfg [LBracket] [] (advance ts) = Some (Inr (chs, items, ts1))"
    and v: "v = Array (chs @ [RBracket]) items" and ts': "ts' = advance ts1"
    by (auto simp: parse_array.simps split: option.splits sum.splits)
  from l loop obtain new t1 where new: "chs = [LBracket] @ new"
    and sp: "spans cfg (advance ts) ts1 (nodes_text new)"
    and c1: "current ts1 = Some t1" and t1: "tok_type (fst t1) = RBRACKET"
    unfolding array_loop_ok_def by blast
  have s1: "spans cfg ts (advance ts) (nodes_text [LBracket])"
  proof (rule spans_step [OF cur])
    assume "tok_wf (fst t)"
    with ty show "nodes_text [LBracket] = lexeme (fst t)" by (simp add: tok_wf_def lexeme_def)
  qed
  have s3: "spans cfg ts1 (advance ts1) (nodes_text [RBracket])"
  proof (rule spans_step [OF c1])
    assume "tok_wf (fst t1)"
    with t1 show "nodes_text [RBracket] = lexeme (fst t1)" by (simp add: tok_wf_def lexeme_def)
  qed
  from spans_trans [OF s1 spans_trans [OF sp s3]] v new ts'
  have "spans cfg ts ts' (to_alexson v)" by (simp add: nodes_text_def)
  moreover from current_advance_length [OF cur] spans_length [OF sp] current_advance_length [OF c1] ts'
  have "length ts' < length ts" by simp
  ultimately show "spans cfg ts ts' (to_alexson v) \<and> length ts' < length ts" by blast
qed

lemma array_loop_ok_step:
  assumes pv: "value_ok n cfg" and l: "array_loop_ok n cfg"
  shows "array_loop_ok (Suc n) cfg"
  unfolding array_loop_ok_def
proof (intro allI impI)
  fix chs items ts chs' items' ts'
  assume run: "array_loop (Suc n) cfg chs items ts = Some (Inr (chs', items', ts'))"
  then obtain t where cur: "current ts = Some t"
    by (auto simp: array_loop.simps split: option.splits)
  show "(\<exists>new. chs' = chs @ new \<and> spans cfg ts ts' (nodes_text new)) \<and>
        (\<exists>t. current ts' = Some t \<and> tok_type (fst t) = RBRACKET)"
  proof (cases "tok_type (fst t) = RBRACKET")
    case True
    with run cur have "chs' = chs @ [] \<and> spans cfg ts ts' (nodes_text [])" and "ts' = ts"
      by (simp_all add: array_loop.simps spans_refl)
    with cur True show ?thesis by blast
  next
    case False
    with run cur obtain ws1 ts1 v ts2 ws2 ts3 t3 where
      p1: "parse_non_json cfg ts = Inr (ws1, ts1)"
      and val: "parse_value n cfg ts1 = Some (Inr (v, ts2))"
      and p2: "parse_non_json cfg ts2 = Inr (ws2, ts3)"
      and c3: "current ts3 = Some t3"
      and t3: "tok_type (fst t3) = COMMA \<or> tok_type (fst t3) = RBRACKET"
      and fin: "array_loop n cfg
                  (chs @ ws1 @ [v] @ ws2 @ (if tok_type (fst t3) = COMMA then [Comma] else []))
                  (items @ [v]) (if tok_type (fst t3) = COMMA then advance ts3 else ts3)
                = Some (Inr (chs', items', ts'))"
      by (auto simp: array_loop.simps split: option.splits sum.splits if_splits prod.splits)
    have s1: "spans cfg ts ts1 (nodes_text ws1)" by (rule parse_non_json_spans [OF p1])
    from pv val have s2: "spans cfg ts1 ts2 (nodes_text [v])" by (simp add: value_ok_def)
    have s3: "spans cfg ts2 ts3 (nodes_text ws2)" by (rule parse_non_json_spans [OF p2])
    have s4: "spans cfg ts3 (if tok_type (fst t3) = COMMA then advance ts3 else ts3)
        (nodes_text (if tok_type (fst t3) = COMMA then [Comma] else []))"
    proof (cases "tok_type (fst t3) = COMMA")
      case True
      have "spans cfg ts3 (advance ts3) (nodes_text [Comma])"
      proof (rule spans_step [OF c3])
        assume "tok_wf (fst t3)"
        with True show "nodes_text [Comma] = lexeme (fst t3)"
          by (simp add: tok_wf_def lexeme_def)
      qed
      with True show ?thesis by simp
    next
      case False
      then show ?thesis by (simp add: spans_refl)
    qed
    from spans_trans [OF s1 spans_trans [OF s2 spans_trans [OF s3 s4]]]
    have body: "spans cfg ts (if tok_type (fst t3) = COMMA then advance ts3 else ts3)
        (nodes_text (ws1 @ [v] @ ws2 @ (if tok_type (fst t3) = COMMA then [Comma] else [])))"
      by simp
    from l fin obtain new where
      new: "chs' = (chs @ ws1 @ [v] @ ws2 @ (if tok_type (fst t3) = COMMA then [Comma] else [])) @ new"
      and sp: "spans cfg (if tok_type (fst t3) = COMMA then advance ts3 else ts3) ts' (nodes_text new)"
      and rb: "\<exists>t. current ts' = Some t \<and> tok_type (fst t) = RBRACKET"
      unfolding array_loop_ok_def by blast
    from spans_trans [OF body sp] new
    have "chs' = chs @ ((ws1 @ [v] @ ws2 @ (if tok_type (fst t3) = COMMA then [Comma] else [])) @ new) \<and>
        spans cfg ts ts'
          (nodes_text ((ws1 @ [v] @ ws2 @ (if tok_type (fst t3) = COMMA then [Comma] else [])) @ new))"
      by simp
    with rb show ?thesis by blast
  qed
qed

lemma parser_ok:
  "value_ok n cfg \<and> obj_ok n cfg \<and> obj_loop_ok n cfg \<and> array_ok n cfg \<and> array_loop_ok n cfg"
proof (induction n)
  case 0
  show ?case
    by (simp add: value_ok_def obj_ok_def obj_loop_ok_def array_ok_def array_loop_ok_def
        parse_value.simps parse_obj.simps obj_loop.simps parse_array.simps array_loop.simps)
next
  case (Suc n)
  then show ?case
    by (simp add: value_ok_step obj_ok_step obj_loop_ok_step array_ok_step array_loop_ok_step)
qed

text \<open>
  Enough fuel: three units for each token left, and one or two more, are never used up.
\<close>

lemma parse_value_shorter:
  "parse_value n cfg ts = Some (Inr (v, ts')) \<Longrightarrow> length ts' < length ts"
  using parser_ok [of n cfg] by (simp add: value_ok_def)

lemma parse_non_json_length:
  "parse_non_json cfg ts = Inr (ns, ts') \<Longrightarrow> length ts' \<le> length ts"
  by (auto dest: parse_non_json_spans spans_length)

lemma member_tail_length:
  "member_tail cfg ts = Inr (ns, stop, ts') \<Longrightarrow> length ts' \<le> length ts"
  by (auto dest: member_tail_spans spans_length)

lemma member_head_length:
  "member_head cfg ts = Inr (ns, key, ts') \<Longrightarrow> length ts' < length ts"
  by (auto dest: member_head_spans)

definition value_runs :: "nat \<Rightarrow> Config \<Rightarrow> bool" where
  "value_runs n cfg = (\<forall>ts. 3 * length ts + 1 \<le> n \<longrightarrow> parse_value n cfg ts \<noteq> None)"

definition obj_runs :: "nat \<Rightarrow> Config \<Rightarrow> bool" where
  "obj_runs n cfg = (\<forall>ts. ts \<noteq> [] \<longrightarrow> 3 * length ts \<le> n \<longrightarrow> parse_obj n cfg ts \<noteq> None)"

definition obj_loop_runs :: "nat \<Rightarrow> Config \<Rightarrow> bool" where
  "obj_loop_runs n cfg =
     (\<forall>chs d ts. 3 * length ts + 2 \<le> n \<longrightarrow> obj_loop n cfg chs d ts \<noteq> None)"

definition array_runs :: "nat \<Rightarrow> Config \<Rightarrow> bool" where
  "array_runs n cfg = (\<forall>ts. ts \<noteq> [] \<longrightarrow> 3 * length ts \<le> n \<longrightarrow> parse_array n cfg ts \<noteq> None)"

definition array_loop_runs :: "nat \<Rightarrow> Config \<Rightarrow> bool" where
  "array_loop_runs n cfg =
     (\<forall>chs items ts. 3 * length ts + 2 \<le> n \<longrightarrow> array_loop n cfg chs items ts \<noteq> None)"

lemma value_runs_step:
  assumes o: "obj_runs n cfg" and a: "array_runs n cfg"
  shows "value_runs (Suc n) cfg"
  unfolding value_runs_def
proof (intro allI impI)
  fix ts :: "ptoken list"
  assume fuel: "3 * length ts + 1 \<le> Suc n"
  show "parse_value (Suc n) cfg ts \<noteq> None"
  proof (cases ts)
    case Nil
    then show ?thesis by (simp add: parse_value.simps current_def)
  next
    case (Cons t ts0)
    with fuel o have "parse_obj n cfg ts \<noteq> None" by (simp add: obj_runs_def)
    moreover from Cons fuel a have "parse_array n cfg ts \<noteq> None" by (simp add: array_runs_def)
    ultimately show ?thesis
      by (auto simp: parse_value.simps split: option.splits sum.splits)
  qed
qed

lemma obj_runs_step:
  assumes l: "obj_loop_runs n cfg"
  shows "obj_runs (Suc n) cfg"
  unfolding obj_runs_def
proof (intro allI impI)
  fix ts :: "ptoken list"
  assume ne: "ts \<noteq> []" and fuel: "3 * length ts \<le> Suc n"
  from ne have "length (advance ts) + 1 = length ts" by (cases ts) (simp_all add: advance_def)
  with fuel have "3 * length (advance ts) + 2 \<le> n" by linarith
  with l have "obj_loop n cfg [LBrace] [] (advance ts) \<noteq> None" by (simp add: obj_loop_runs_def)
  then show "parse_obj (Suc n) cfg ts \<noteq> None"
    by (auto simp: parse_obj.simps split: option.splits sum.splits)
qed

lemma array_runs_step:
  assumes l: "array_loop_runs n cfg"
  shows "array_runs (Suc n) cfg"
  unfolding array_runs_def
proof (intro allI impI)
  fix ts :: "ptoken list"
  assume ne: "ts \<noteq> []" and fuel: "3 * length ts \<le> Suc n"
  from ne have "length (advance ts) + 1 = length ts" by (cases ts) (simp_all add: advance_def)
  with fuel have "3 * length (advance ts) + 2 \<le> n" by linarith
  with l have "array_loop n cfg [LBracket] [] (advance ts) \<noteq> None" by (simp add: array_loop_runs_def)
  then show "parse_array (Suc n) cfg ts \<noteq> None"
    by (auto simp: parse_array.simps split: option.splits sum.splits)
qed

lemma obj_loop_runs_step:
  assumes pv: "value_runs n cfg" and l: "obj_loop_runs n cfg"
  shows "obj_loop_runs (Suc n) cfg"
  unfolding obj_loop_runs_def
proof (intro allI impI notI)
  fix chs d ts
  assume fuel: "3 * length ts + 2 \<le> Suc n" and none: "obj_loop (Suc n) cfg chs d ts = None"
  from none obtain ns1 key ts1 where mh: "member_head cfg ts = Inr (ns1, key, ts1)"
    by (auto simp: obj_loop.simps split: option.splits sum.splits if_splits)
  from member_head_length [OF mh] fuel have f1: "3 * length ts1 + 1 \<le> n" by linarith
  with pv have "parse_value n cfg ts1 \<noteq> None" by (simp add: value_runs_def)
  with none mh obtain v ts2 ns2 stop ts3 chs2 d2 where
    val: "parse_value n cfg ts1 = Some (Inr (v, ts2))"
    and mt: "member_tail cfg ts2 = Inr (ns2, stop, ts3)"
    and rec: "obj_loop n cfg chs2 d2 ts3 = None"
    by (auto simp: obj_loop.simps split: option.splits sum.splits if_splits prod.splits)
  from parse_value_shorter [OF val] member_tail_length [OF mt] member_head_length [OF mh] fuel
  have "3 * length ts3 + 2 \<le> n" by linarith
  with l rec show False unfolding obj_loop_runs_def by blast
qed

lemma array_loop_runs_step:
  assumes pv: "value_runs n cfg" and l: "array_loop_runs n cfg"
  shows "array_loop_runs (Suc n) cfg"
  unfolding array_loop_runs_def
proof (intro allI impI notI)
  fix chs items ts
  assume fuel: "3 * length ts + 2 \<le> Suc n" and none: "array_loop (Suc n) cfg chs items ts = None"
  from none obtain ws1 ts1 where p1: "parse_non_json cfg ts = Inr (ws1, ts1)"
    by (auto simp: array_loop.simps split: option.splits sum.splits if_splits)
  from parse_non_json_length [OF p1] fuel have f1: "3 * length ts1 + 1 \<le> n" by linarith
  with pv have "parse_value n cfg ts1 \<noteq> None" by (simp add: value_runs_def)
  with none p1 obtain v ts2 ws2 ts3 t3 chs2 items2 where
    val: "parse_value n cfg ts1 = Some (Inr (v, ts2))"
    and p2: "parse_non_json cfg ts2 = Inr (ws2, ts3)"
    and c3: "current ts3 = Some t3"
    and rec: "array_loop n cfg chs2 items2 (if tok_type (fst t3) = COMMA then advance ts3 else ts3) = None"
    by (auto simp: array_loop.simps split: option.splits sum.splits if_splits prod.splits)
  from current_advance_length [OF c3]
  have "length (if tok_type (fst t3) = COMMA then advance ts3 else ts3) \<le> length ts3" by simp
  with parse_value_shorter [OF val] parse_non_json_length [OF p2] parse_non_json_length [OF p1] fuel
  have "3 * length (if tok_type (fst t3) = COMMA then advance ts3 else ts3) + 2 \<le> n" by linarith
  with l rec show False unfolding array_loop_runs_def by blast
qed

lemma parser_runs:
  "value_runs n cfg \<and> obj_runs n cfg \<and> obj_loop_runs n cfg \<and> array_runs n cfg \<and> array_loop_runs n cfg"
proof (induction n)
  case 0
  show ?case
    by (simp add: value_runs_def obj_runs_def obj_loop_runs_def array_runs_def array_loop_runs_def)
next
  case (Suc n)
  then show ?case
    by (simp add: value_runs_step obj_runs_step obj_loop_runs_step array_runs_step array_loop_runs_step)
qed

lemma parse_obj_spans:
  "parse_obj n cfg ts = Some (Inr (v, ts')) \<Longrightarrow> spans cfg ts ts' (to_alexson v)"
  using parser_ok [of n cfg] unfolding obj_ok_def by blast

lemma parse_array_spans:
  "current ts = Some t \<Longrightarrow> tok_type (fst t) = LBRACKET \<Longrightarrow>
   parse_array n cfg ts = Some (Inr (v, ts')) \<Longrightarrow> spans cfg ts ts' (to_alexson v)"
  using parser_ok [of n cfg] unfolding array_ok_def by blast

lemma spans_all:
  assumes "spans cfg ts [] txt" and "allow_comments cfg" and "toks_wf ts"
  shows "txt = lexemes ts"
  using assms by (auto simp: spans_def)

lemma current_None_iff: "current ts = None \<longleftrightarrow> ts = []"
  by (cases ts) (simp_all add: current_def)

lemma parse_tokens_text:
  assumes run: "parse_tokens cfg ts = Some (Inr r)" and ac: "allow_comments cfg" and wf: "toks_wf ts"
  shows "Root_to_alexson r = lexemes ts"
proof (cases "current ts = None")
  case True
  with run show ?thesis
    by (auto simp: parse_tokens_def Root_to_alexson_def Root_init_def current_None_iff)
next
  case False
  with run obtain ws1 ts1 where p1: "parse_non_json cfg ts = Inr (ws1, ts1)"
    by (auto simp: parse_tokens_def split: sum.splits)
  have s1: "spans cfg ts ts1 (nodes_text ws1)" by (rule parse_non_json_spans [OF p1])
  show ?thesis
  proof (cases "current ts1")
    case None
    with run False p1 have "children r = ws1"
      by (auto simp: parse_tokens_def Root_init_def)
    moreover from None have "ts1 = []" by (simp add: current_None_iff)
    ultimately show ?thesis using s1 ac wf
      by (auto simp: Root_to_alexson_def nodes_text_def [symmetric] dest: spans_all)
  next
    case (Some t)
    with run False p1 obtain block ts2 ws2 ts3 where
      blk: "(if tok_type (fst t) = LBRACE then parse_obj (3 * length ts + 3) cfg ts1
             else parse_array (3 * length ts + 3) cfg ts1) = Some (Inr (block, ts2))"
      and ty: "tok_type (fst t) = LBRACE \<or> tok_type (fst t) = LBRACKET"
      and p2: "parse_non_json cfg ts2 = Inr (ws2, ts3)" and e: "ts3 = []"
      and r: "children r = ws1 @ [block] @ ws2"
      by (auto simp: parse_tokens_def Root_init_def current_None_iff
          split: sum.splits option.splits if_splits)
    have s2: "spans cfg ts1 ts2 (nodes_text [block])"
    proof (cases "tok_type (fst t) = LBRACE")
      case True
      with blk have "parse_obj (3 * length ts + 3) cfg ts1 = Some (Inr (block, ts2))" by simp
      from parse_obj_spans [OF this] show ?thesis by simp
    next
      case False
      with blk ty have "parse_array (3 * length ts + 3) cfg ts1 = Some (Inr (block, ts2))"
        and "tok_type (fst t) = LBRACKET" by simp_all
      from parse_array_spans [OF Some this(2) this(1)] show ?thesis by simp
    qed
    have s3: "spans cfg ts2 ts3 (nodes_text ws2)" by (rule parse_non_json_spans [OF p2])
    from e spans_trans [OF s1 spans_trans [OF s2 s3]] r
    have "spans cfg ts [] (nodes_text (children r))" by simp
    from spans_all [OF this ac wf] show ?thesis by (simp add: Root_to_alexson_def nodes_text_def)
  qed
qed

lemma parse_tokens_total: "parse_tokens cfg ts \<noteq> None"
proof (cases "current ts = None")
  case True
  then show ?thesis by (simp add: parse_tokens_def)
next
  case False
  show ?thesis
  proof (cases "parse_non_json cfg ts")
    case (Inl e)
    with False show ?thesis by (simp add: parse_tokens_def)
  next
    case (Inr p)
    then obtain ws1 ts1 where p1: "parse_non_json cfg ts = Inr (ws1, ts1)" by (cases p) simp
    from parse_non_json_length [OF p1] have len: "3 * length ts1 \<le> 3 * length ts + 3" by simp
    show ?thesis
    proof (cases "current ts1")
      case None
      with False p1 show ?thesis by (simp add: parse_tokens_def)
    next
      case (Some t)
      then have ne: "ts1 \<noteq> []" by (auto simp: current_def)
      from parser_runs [of "3 * length ts + 3" cfg] ne len
      have "parse_obj (3 * length ts + 3) cfg ts1 \<noteq> None"
        and "parse_array (3 * length ts + 3) cfg ts1 \<noteq> None"
        by (simp_all add: obj_runs_def array_runs_def)
      with False p1 Some show ?thesis
        by (auto simp: parse_tokens_def split: sum.splits option.splits)
    qed
  qed
qed

lemma parse_total: "\<exists>res. parse cfg text = Some res"
  using parse_tokens_total by (auto simp: parse_def split: sum.splits)

section \<open>The keys of a parsed object\<close>

text \<open>
  The member keys of an object, read off its children: a \<open>String\<close> child is a key when the
  next child that is no formatting node is the colon. \<open>keys_unique\<close> says of a node that,
  in every object inside it, the keys of the \<^verbatim>\<open>dict\<close> are the member keys in their order
  and no key occurs twice.
\<close>

fun is_formatting :: "node \<Rightarrow> bool" where
  "is_formatting (Comment c) = True"
| "is_formatting WhiteSpace = True"
| "is_formatting NewLine = True"
| "is_formatting Tab = True"
| "is_formatting _ = False"

definition before_colon :: "node list \<Rightarrow> bool" where
  "before_colon ns = (case dropWhile is_formatting ns of Colon # _ \<Rightarrow> True | _ \<Rightarrow> False)"

fun member_keys :: "node list \<Rightarrow> string list" where
  "member_keys [] = []"
| "member_keys (String s # ns) = (if before_colon ns then s # member_keys ns else member_keys ns)"
| "member_keys (n # ns) = member_keys ns"

fun keys_unique :: "node \<Rightarrow> bool" where
  "keys_unique (Object chs d) =
     (member_keys chs = map fst d \<and> distinct (map fst d) \<and> list_all keys_unique chs)"
| "keys_unique (Array chs items) = list_all keys_unique chs"
| "keys_unique _ = True"

lemma member_keys_formatting:
  "list_all is_formatting ws \<Longrightarrow> member_keys (ws @ ys) = member_keys ys"
  by (induction ws) (auto elim: is_formatting.elims)

lemma before_colon_formatting:
  "list_all is_formatting ws \<Longrightarrow> before_colon (ws @ ys) = before_colon ys"
  by (induction ws) (auto simp: before_colon_def)

lemma before_colon_simps [simp]:
  "before_colon (Colon # ys)" "\<not> before_colon (Comma # ys)" "\<not> before_colon (RBrace # ys)"
  by (simp_all add: before_colon_def)

lemma member_keys_head:
  assumes "list_all is_formatting ws1" "list_all is_formatting ws2" "list_all is_formatting ws3"
  shows "member_keys ((ws1 @ [String key] @ ws2 @ [Colon] @ ws3) @ ys) = key # member_keys ys"
  using assms
  by (simp add: member_keys_formatting before_colon_formatting)

lemma member_keys_value:
  assumes "list_all is_formatting ws" and "x = Comma \<or> x = RBrace"
  shows "member_keys (v # ws @ x # ys) = member_keys ys"
proof -
  from assms have "\<not> before_colon (ws @ x # ys)"
    by (auto simp: before_colon_formatting)
  moreover from assms have "member_keys (ws @ x # ys) = member_keys ys"
    by (auto simp: member_keys_formatting)
  ultimately show ?thesis by (cases v) simp_all
qed

lemma formatting_keys_unique: "list_all is_formatting ws \<Longrightarrow> list_all keys_unique ws"
  by (induction ws) (auto elim: is_formatting.elims)

lemma non_json_nodes_formatting: "list_all is_formatting (non_json_nodes cfg t)"
  by (simp add: non_json_nodes_def list_all_iff)

lemma non_json_loop_formatting:
  "non_json_loop cfg acc ts = Inr (ns, ts') \<Longrightarrow> list_all is_formatting acc \<Longrightarrow> list_all is_formatting ns"
  by (induction ts arbitrary: acc) (auto simp: non_json_nodes_formatting split: if_splits)

lemma parse_non_json_formatting:
  "parse_non_json cfg ts = Inr (ns, ts') \<Longrightarrow> list_all is_formatting ns"
  by (auto simp: parse_non_json_def split: if_splits dest: non_json_loop_formatting)

lemma parse_non_json_at_token:
  "current ts = Some t \<Longrightarrow> tok_type (fst t) \<notin> NON_JSON_TYPES \<Longrightarrow> parse_non_json cfg ts = Inr ([], ts)"
  by (cases ts) (auto simp: parse_non_json_def current_def)


lemma member_head_shape:
  assumes "member_head cfg ts = Inr (ns, key, ts')"
  shows "\<exists>ws1 ws2 ws3. ns = ws1 @ [String key] @ ws2 @ [Colon] @ ws3 \<and>
           list_all is_formatting ws1 \<and> list_all is_formatting ws2 \<and> list_all is_formatting ws3"
proof -
  from assms obtain ws1 ts1 k ws2 ts2 c ws3 where
    p1: "parse_non_json cfg ts = Inr (ws1, ts1)"
    and p2: "parse_non_json cfg (advance ts1) = Inr (ws2, ts2)"
    and p3: "parse_non_json cfg (advance ts2) = Inr (ws3, ts')"
    and ns: "ns = ws1 @ [String (tok_value (fst k))] @ ws2 @ [Colon] @ ws3"
    and key: "key = tok_value (fst k)"
    unfolding member_head_def
    by (auto split: sum.splits option.splits if_splits prod.splits)
  from parse_non_json_formatting [OF p1] parse_non_json_formatting [OF p2]
    parse_non_json_formatting [OF p3] ns key
  show ?thesis by blast
qed

lemma member_tail_shape:
  assumes "member_tail cfg ts = Inr (ns, stop, ts')"
  shows "(\<exists>ws4 ws5. ns = ws4 @ [Comma] @ ws5 \<and> list_all is_formatting ws4 \<and> list_all is_formatting ws5) \<or>
         (list_all is_formatting ns \<and> (\<exists>t. current ts' = Some t \<and> tok_type (fst t) = RBRACE))"
proof -
  from assms obtain ws4 ts4 t ws5 where
    p1: "parse_non_json cfg ts = Inr (ws4, ts4)" and t: "current ts4 = Some t"
    and tt: "tok_type (fst t) = COMMA \<or> tok_type (fst t) = RBRACE"
    and p2: "parse_non_json cfg (if tok_type (fst t) = COMMA then advance ts4 else ts4) = Inr (ws5, ts')"
    and ns: "ns = ws4 @ (if tok_type (fst t) = COMMA then [Comma] else []) @ ws5"
    unfolding member_tail_def
    by (auto split: sum.splits option.splits if_splits prod.splits)
  note f4 = parse_non_json_formatting [OF p1] and f5 = parse_non_json_formatting [OF p2]
  show ?thesis
  proof (cases "tok_type (fst t) = COMMA")
    case True
    with ns f4 f5 show ?thesis by auto
  next
    case False
    with tt have rb: "tok_type (fst t) = RBRACE" by simp
    then have "tok_type (fst t) \<notin> NON_JSON_TYPES" by (simp add: NON_JSON_TYPES_def)
    from parse_non_json_at_token [OF t this] p2 False have "ws5 = []" and "ts' = ts4"
      by simp_all
    with ns f4 False t rb show ?thesis by auto
  qed
qed

lemma obj_loop_at_rbrace:
  assumes "current ts = Some t" and "tok_type (fst t) = RBRACE"
    and "obj_loop n cfg chs d ts = Some res"
  shows "res = Inr (chs, d, ts)"
  using assms by (cases n) (simp_all add: obj_loop.simps)

lemma literal_value_keys: "literal_value t ts = Inr v \<Longrightarrow> keys_unique v"
  by (auto simp: literal_value_def split: if_splits option.splits)

definition value_keys :: "nat \<Rightarrow> Config \<Rightarrow> bool" where
  "value_keys n cfg =
     (\<forall>ts v ts'. parse_value n cfg ts = Some (Inr (v, ts')) \<longrightarrow> keys_unique v)"

definition obj_keys :: "nat \<Rightarrow> Config \<Rightarrow> bool" where
  "obj_keys n cfg =
     (\<forall>ts v ts'. parse_obj n cfg ts = Some (Inr (v, ts')) \<longrightarrow> keys_unique v)"

definition obj_loop_keys :: "nat \<Rightarrow> Config \<Rightarrow> bool" where
  "obj_loop_keys n cfg =
     (\<forall>chs d ts chs' d' ts'.
        obj_loop n cfg chs d ts = Some (Inr (chs', d', ts')) \<longrightarrow>
        (\<forall>ys. member_keys (chs @ ys) = map fst d @ member_keys ys) \<longrightarrow>
        distinct (map fst d) \<longrightarrow> list_all keys_unique chs \<longrightarrow>
        member_keys (chs' @ [RBrace]) = map fst d' \<and> distinct (map fst d') \<and>
        list_all keys_unique chs')"

definition array_keys :: "nat \<Rightarrow> Config \<Rightarrow> bool" where
  "array_keys n cfg =
     (\<forall>ts v ts'. parse_array n cfg ts = Some (Inr (v, ts')) \<longrightarrow> keys_unique v)"

definition array_loop_keys :: "nat \<Rightarrow> Config \<Rightarrow> bool" where
  "array_loop_keys n cfg =
     (\<forall>chs items ts chs' items' ts'.
        array_loop n cfg chs items ts = Some (Inr (chs', items', ts')) \<longrightarrow>
        list_all keys_unique chs \<longrightarrow> list_all keys_unique chs')"

lemma obj_loop_keysD:
  assumes "obj_loop_keys n cfg" and "obj_loop n cfg chs d ts = Some (Inr (chs', d', ts'))"
    and "\<And>ys. member_keys (chs @ ys) = map fst d @ member_keys ys"
    and "distinct (map fst d)" and "list_all keys_unique chs"
  shows "member_keys (chs' @ [RBrace]) = map fst d' \<and> distinct (map fst d') \<and>
         list_all keys_unique chs'"
  using assms unfolding obj_loop_keys_def by blast

lemma array_loop_keysD:
  assumes "array_loop_keys n cfg"
    and "array_loop n cfg chs items ts = Some (Inr (chs', items', ts'))"
    and "list_all keys_unique chs"
  shows "list_all keys_unique chs'"
  using assms unfolding array_loop_keys_def by blast

lemma value_keys_step:
  assumes "obj_keys n cfg" and "array_keys n cfg"
  shows "value_keys (Suc n) cfg"
  using assms unfolding value_keys_def obj_keys_def array_keys_def
  by (auto simp: parse_value.simps split: option.splits sum.splits if_splits
      dest: literal_value_keys)

lemma obj_keys_step:
  assumes l: "obj_loop_keys n cfg"
  shows "obj_keys (Suc n) cfg"
  unfolding obj_keys_def
proof (intro allI impI)
  fix ts v ts'
  assume "parse_obj (Suc n) cfg ts = Some (Inr (v, ts'))"
  then obtain chs d ts1 where
    loop: "obj_loop n cfg [LBrace] [] (advance ts) = Some (Inr (chs, d, ts1))"
    and v: "v = Object (chs @ [RBrace]) d"
    by (auto simp: parse_obj.simps split: option.splits sum.splits if_splits)
  from obj_loop_keysD [OF l loop]
  have "member_keys (chs @ [RBrace]) = map fst d \<and> distinct (map fst d) \<and>
      list_all keys_unique chs"
    by simp
  with v show "keys_unique v" by simp
qed

lemma array_keys_step:
  assumes l: "array_loop_keys n cfg"
  shows "array_keys (Suc n) cfg"
  unfolding array_keys_def
proof (intro allI impI)
  fix ts v ts'
  assume "parse_array (Suc n) cfg ts = Some (Inr (v, ts'))"
  then obtain chs items ts1 where
    loop: "array_loop n cfg [LBracket] [] (advance ts) = Some (Inr (chs, items, ts1))"
    and v: "v = Array (chs @ [RBracket]) items"
    by (auto simp: parse_array.simps split: option.splits sum.splits)
  from array_loop_keysD [OF l loop] have "list_all keys_unique chs" by simp
  with v show "keys_unique v" by simp
qed

lemma array_loop_keys_step:
  assumes pv: "value_keys n cfg" and l: "array_loop_keys n cfg"
  shows "array_loop_keys (Suc n) cfg"
  unfolding array_loop_keys_def
proof (intro allI impI)
  fix chs items ts chs' items' ts'
  assume run: "array_loop (Suc n) cfg chs items ts = Some (Inr (chs', items', ts'))"
    and ku: "list_all keys_unique chs"
  from run obtain t where cur: "current ts = Some t"
    by (auto simp: array_loop.simps split: option.splits)
  show "list_all keys_unique chs'"
  proof (cases "tok_type (fst t) = RBRACKET")
    case True
    with run cur ku show ?thesis by (simp add: array_loop.simps)
  next
    case False
    with run cur obtain ws1 ts1 v ts2 ws2 ts3 t3 where
      p1: "parse_non_json cfg ts = Inr (ws1, ts1)"
      and val: "parse_value n cfg ts1 = Some (Inr (v, ts2))"
      and p2: "parse_non_json cfg ts2 = Inr (ws2, ts3)"
      and c3: "current ts3 = Some t3"
      and fin: "array_loop n cfg
                  (chs @ ws1 @ [v] @ ws2 @ (if tok_type (fst t3) = COMMA then [Comma] else []))
                  (items @ [v]) (if tok_type (fst t3) = COMMA then advance ts3 else ts3)
                = Some (Inr (chs', items', ts'))"
      by (auto simp: array_loop.simps split: option.splits sum.splits if_splits prod.splits)
    from pv val have "keys_unique v" unfolding value_keys_def by blast
    with ku formatting_keys_unique [OF parse_non_json_formatting [OF p1]]
      formatting_keys_unique [OF parse_non_json_formatting [OF p2]]
    have "list_all keys_unique
        (chs @ ws1 @ [v] @ ws2 @ (if tok_type (fst t3) = COMMA then [Comma] else []))"
      by simp
    from array_loop_keysD [OF l fin this] show ?thesis .
  qed
qed

lemma obj_loop_keys_step:
  assumes pv: "value_keys n cfg" and l: "obj_loop_keys n cfg"
  shows "obj_loop_keys (Suc n) cfg"
  unfolding obj_loop_keys_def
proof (intro allI impI)
  fix chs d ts chs' d' ts'
  assume run: "obj_loop (Suc n) cfg chs d ts = Some (Inr (chs', d', ts'))"
    and K: "\<forall>ys. member_keys (chs @ ys) = map fst d @ member_keys ys"
    and dist: "distinct (map fst d)" and ku: "list_all keys_unique chs"
  from run obtain t where cur: "current ts = Some t"
    by (auto simp: obj_loop.simps split: option.splits)
  show "member_keys (chs' @ [RBrace]) = map fst d' \<and> distinct (map fst d') \<and>
        list_all keys_unique chs'"
  proof (cases "tok_type (fst t) = RBRACE")
    case True
    with run cur have "chs' = chs" "d' = d" by (simp_all add: obj_loop.simps)
    with K dist ku show ?thesis by simp
  next
    case False
    with run cur obtain ns1 key ts1 v ts2 ns2 stop ts3 where
      mh: "member_head cfg ts = Inr (ns1, key, ts1)"
      and val: "parse_value n cfg ts1 = Some (Inr (v, ts2))"
      and fresh: "key \<notin> set (map fst d)"
      and mt: "member_tail cfg ts2 = Inr (ns2, stop, ts3)"
      and fin: "(if stop then Some (Inr (chs @ ns1 @ [v] @ ns2, d @ [(key, (String key, v))], ts3))
                 else obj_loop n cfg (chs @ ns1 @ [v] @ ns2) (d @ [(key, (String key, v))]) ts3)
                = Some (Inr (chs', d', ts'))"
      by (auto simp: obj_loop.simps split: option.splits sum.splits if_splits prod.splits)
    let ?chs = "chs @ ns1 @ [v] @ ns2" and ?d = "d @ [(key, (String key, v))]"
    from member_head_shape [OF mh] obtain ws1 ws2 ws3 where
      ns1: "ns1 = ws1 @ [String key] @ ws2 @ [Colon] @ ws3"
      and f: "list_all is_formatting ws1" "list_all is_formatting ws2" "list_all is_formatting ws3"
      by blast
    from pv val have kv: "keys_unique v" unfolding value_keys_def by blast
    from dist fresh have dist': "distinct (map fst ?d)" by simp
    have head: "\<And>ys. member_keys (ns1 @ ys) = key # member_keys ys"
      unfolding ns1 by (rule member_keys_head [OF f])
    from ns1 f have ku1: "list_all keys_unique ns1" by (simp add: formatting_keys_unique)
    from member_tail_shape [OF mt] show ?thesis
    proof (elim disjE exE conjE)
      fix ws4 ws5
      assume ns2: "ns2 = ws4 @ [Comma] @ ws5"
        and f4: "list_all is_formatting ws4" and f5: "list_all is_formatting ws5"
      have K': "member_keys (?chs @ ys) = map fst ?d @ member_keys ys" for ys
      proof -
        have "member_keys (?chs @ ys) = map fst d @ member_keys (ns1 @ v # ws4 @ Comma # ws5 @ ys)"
          using K ns2 by simp
        also have "member_keys (ns1 @ v # ws4 @ Comma # ws5 @ ys) = key # member_keys (ws5 @ ys)"
          using f4 by (simp add: head member_keys_value)
        also have "member_keys (ws5 @ ys) = member_keys ys" using f5 by (rule member_keys_formatting)
        finally show ?thesis by simp
      qed
      from ku ku1 kv ns2 f4 f5 have ku': "list_all keys_unique ?chs" by (simp add: formatting_keys_unique)
      show ?thesis
      proof (cases stop)
        case True
        with fin have "chs' = ?chs" "d' = ?d" by simp_all
        with K' [of "[RBrace]"] dist' ku' show ?thesis by simp
      next
        case False
        with fin have "obj_loop n cfg ?chs ?d ts3 = Some (Inr (chs', d', ts'))" by simp
        from obj_loop_keysD [OF l this K' dist' ku'] show ?thesis .
      qed
    next
      fix t3
      assume f2: "list_all is_formatting ns2"
        and c3: "current ts3 = Some t3" and rb: "tok_type (fst t3) = RBRACE"
      have "chs' = ?chs \<and> d' = ?d"
      proof (cases stop)
        case True
        with fin show ?thesis by simp
      next
        case False
        with fin have "obj_loop n cfg ?chs ?d ts3 = Some (Inr (chs', d', ts'))" by simp
        from obj_loop_at_rbrace [OF c3 rb this] show ?thesis by simp
      qed
      moreover have "member_keys (?chs @ [RBrace]) = map fst ?d"
      proof -
        have "member_keys (?chs @ [RBrace]) = map fst d @ member_keys (ns1 @ v # ns2 @ RBrace # [])"
          using K by simp
        also have "member_keys (ns1 @ v # ns2 @ RBrace # []) = key # member_keys []"
          using f2 by (simp add: head member_keys_value)
        finally show ?thesis by simp
      qed
      moreover from ku ku1 kv f2 have "list_all keys_unique ?chs" by (simp add: formatting_keys_unique)
      ultimately show ?thesis using dist' by simp
    qed
  qed
qed

lemma parser_keys:
  "value_keys n cfg \<and> obj_keys n cfg \<and> obj_loop_keys n cfg \<and> array_keys n cfg \<and> array_loop_keys n cfg"
proof (induction n)
  case 0
  show ?case
    by (simp add: value_keys_def obj_keys_def obj_loop_keys_def array_keys_def array_loop_keys_def
        parse_value.simps parse_obj.simps obj_loop.simps parse_array.simps array_loop.simps)
next
  case (Suc n)
  then show ?case
    by (simp add: value_keys_step obj_keys_step obj_loop_keys_step array_keys_step array_loop_keys_step)
qed


lemma parse_obj_keys: "parse_obj n cfg ts = Some (Inr (v, ts')) \<Longrightarrow> keys_unique v"
  using parser_keys [of n cfg] unfolding obj_keys_def by blast

lemma parse_array_keys: "parse_array n cfg ts = Some (Inr (v, ts')) \<Longrightarrow> keys_unique v"
  using parser_keys [of n cfg] unfolding array_keys_def by blast

lemma parse_tokens_keys:
  assumes run: "parse_tokens cfg ts = Some (Inr r)"
  shows "list_all keys_unique (children r)"
proof (cases "current ts = None")
  case True
  with run show ?thesis by (auto simp: parse_tokens_def Root_init_def)
next
  case False
  with run obtain ws1 ts1 where p1: "parse_non_json cfg ts = Inr (ws1, ts1)"
    by (auto simp: parse_tokens_def split: sum.splits)
  note k1 = formatting_keys_unique [OF parse_non_json_formatting [OF p1]]
  show ?thesis
  proof (cases "current ts1")
    case None
    with run False p1 have "children r = ws1"
      by (auto simp: parse_tokens_def Root_init_def)
    with k1 show ?thesis by simp
  next
    case (Some t)
    with run False p1 obtain block ts2 ws2 ts3 where
      blk: "(if tok_type (fst t) = LBRACE then parse_obj (3 * length ts + 3) cfg ts1
             else parse_array (3 * length ts + 3) cfg ts1) = Some (Inr (block, ts2))"
      and p2: "parse_non_json cfg ts2 = Inr (ws2, ts3)"
      and r: "children r = ws1 @ [block] @ ws2"
      by (auto simp: parse_tokens_def Root_init_def current_None_iff
          split: sum.splits option.splits if_splits)
    from blk have "keys_unique block"
      by (auto split: if_splits dest: parse_obj_keys parse_array_keys)
    with r k1 formatting_keys_unique [OF parse_non_json_formatting [OF p2]] show ?thesis
      by simp
  qed
qed

lemma parse_keys: "parse cfg txt = Some (Inr r) \<Longrightarrow> list_all keys_unique (children r)"
  by (auto simp: parse_def split: sum.splits dest: parse_tokens_keys)

lemma duplicate_in_loop:
  fixes d :: "(string \<times> node \<times> node) list"
  assumes "current ts = Some t" "tok_type (fst t) \<noteq> RBRACE"
    "member_head cfg ts = Inr (ns, key, ts1)" "parse_value n cfg ts1 = Some (Inr (v, ts2))"
    "key \<in> set (map fst d)"
  shows "obj_loop (Suc n) cfg chs d ts =
      Some (Inl (parser_exception (''Duplicate key '' @ key) ts2))"
  using assms by (simp add: obj_loop.simps)

section \<open>The trailing comma option\<close>

text \<open>
  \<^verbatim>\<open>_parse_non_json\<close> reads only \<open>allow_comments\<close>, and the one read of
  \<open>allow_trailing_comma\<close>, after a comma in \<^verbatim>\<open>_parse_obj\<close>, leaves the loop
  where its own test would: at a closing brace. So the option does not change what a
  parse returns.
\<close>

lemma non_json_nodes_comments:
  "allow_comments c1 = allow_comments c2 \<Longrightarrow> non_json_nodes c1 t = non_json_nodes c2 t"
  by (simp add: non_json_nodes_def)

lemma non_json_loop_comments:
  "allow_comments c1 = allow_comments c2 \<Longrightarrow> non_json_loop c1 acc ts = non_json_loop c2 acc ts"
  by (induction ts arbitrary: acc) (simp_all add: non_json_nodes_comments [of c1 c2])

lemma parse_non_json_comments:
  "allow_comments c1 = allow_comments c2 \<Longrightarrow> parse_non_json c1 = parse_non_json c2"
  by (rule ext) (simp add: parse_non_json_def non_json_loop_comments [of c1 c2])

lemma member_head_comments:
  assumes "allow_comments c1 = allow_comments c2"
  shows "member_head c1 ts = member_head c2 ts"
  unfolding member_head_def parse_non_json_comments [OF assms] by (rule refl)

lemma member_tail_off_on:
  assumes ac: "allow_comments off = allow_comments on"
    and off: "\<not> allow_trailing_comma off" and on: "allow_trailing_comma on"
  shows "member_tail off ts = Inl e \<Longrightarrow> member_tail on ts = Inl e"
    and "member_tail off ts = Inr (ns, stop, ts') \<Longrightarrow>
         \<not> stop \<and> member_tail on ts =
           (case current ts' of None \<Rightarrow> Inl AttributeError
            | Some t \<Rightarrow> Inr (ns, tok_type (fst t) = RBRACE, ts'))"
proof -
  note pnj = parse_non_json_comments [OF ac]
  have "(member_tail off ts = Inl e \<longrightarrow> member_tail on ts = Inl e) \<and>
        (member_tail off ts = Inr (ns, stop, ts') \<longrightarrow>
           \<not> stop \<and> member_tail on ts =
             (case current ts' of None \<Rightarrow> Inl AttributeError
              | Some t \<Rightarrow> Inr (ns, tok_type (fst t) = RBRACE, ts')))"
  proof (cases "parse_non_json on ts")
    case (Inl x)
    then show ?thesis by (simp add: member_tail_def pnj)
  next
    case (Inr p)
    then obtain ws4 ts4 where p4: "parse_non_json on ts = Inr (ws4, ts4)" by (cases p) simp
    show ?thesis
    proof (cases "current ts4")
      case None
      with p4 show ?thesis by (simp add: member_tail_def pnj)
    next
      case t: (Some t)
      show ?thesis
      proof (cases "tok_type (fst t) \<noteq> COMMA \<and> tok_type (fst t) \<noteq> RBRACE")
        case True
        with p4 t show ?thesis by (simp add: member_tail_def pnj)
      next
        case sep: False
        show ?thesis
        proof (cases "parse_non_json on (if tok_type (fst t) = COMMA then advance ts4 else ts4)")
          case (Inl x)
          with p4 t sep show ?thesis by (auto simp: member_tail_def pnj)
        next
          case (Inr q)
          then obtain ws5 ts5 where
            "parse_non_json on (if tok_type (fst t) = COMMA then advance ts4 else ts4) = Inr (ws5, ts5)"
            by (cases q) simp
          with p4 t sep off on show ?thesis
            by (cases "current ts5") (auto simp: member_tail_def pnj)
        qed
      qed
    qed
  qed
  then show "member_tail off ts = Inl e \<Longrightarrow> member_tail on ts = Inl e"
    and "member_tail off ts = Inr (ns, stop, ts') \<Longrightarrow>
         \<not> stop \<and> member_tail on ts =
           (case current ts' of None \<Rightarrow> Inl AttributeError
            | Some t \<Rightarrow> Inr (ns, tok_type (fst t) = RBRACE, ts'))"
    by blast+
qed

text \<open>
  Under two configurations \<open>off\<close> and \<open>on\<close>: whatever a parsing function returns under
  \<open>off\<close> it returns under \<open>on\<close>, with the same fuel.
\<close>

definition value_same :: "nat \<Rightarrow> Config \<Rightarrow> Config \<Rightarrow> bool" where
  "value_same n off on =
     (\<forall>ts res. parse_value n off ts = Some res \<longrightarrow> parse_value n on ts = Some res)"

definition obj_same :: "nat \<Rightarrow> Config \<Rightarrow> Config \<Rightarrow> bool" where
  "obj_same n off on =
     (\<forall>ts res. parse_obj n off ts = Some res \<longrightarrow> parse_obj n on ts = Some res)"

definition obj_loop_same :: "nat \<Rightarrow> Config \<Rightarrow> Config \<Rightarrow> bool" where
  "obj_loop_same n off on =
     (\<forall>chs d ts res. obj_loop n off chs d ts = Some res \<longrightarrow> obj_loop n on chs d ts = Some res)"

definition array_same :: "nat \<Rightarrow> Config \<Rightarrow> Config \<Rightarrow> bool" where
  "array_same n off on =
     (\<forall>ts res. parse_array n off ts = Some res \<longrightarrow> parse_array n on ts = Some res)"

definition array_loop_same :: "nat \<Rightarrow> Config \<Rightarrow> Config \<Rightarrow> bool" where
  "array_loop_same n off on =
     (\<forall>chs items ts res.
        array_loop n off chs items ts = Some res \<longrightarrow> array_loop n on chs items ts = Some res)"

lemma value_same_step:
  assumes "obj_same n off on" and "array_same n off on"
  shows "value_same (Suc n) off on"
  using assms unfolding value_same_def obj_same_def array_same_def
  by (auto simp: parse_value.simps split: option.splits)

lemma obj_same_step:
  assumes l: "obj_loop_same n off on"
  shows "obj_same (Suc n) off on"
  unfolding obj_same_def
proof (intro allI impI)
  fix ts res
  assume run: "parse_obj (Suc n) off ts = Some res"
  show "parse_obj (Suc n) on ts = Some res"
  proof (cases "obj_loop n off [LBrace] [] (advance ts)")
    case None
    with run show ?thesis by (auto simp: parse_obj.simps split: option.splits if_splits)
  next
    case (Some x)
    with l have "obj_loop n on [LBrace] [] (advance ts) = Some x" by (simp add: obj_loop_same_def)
    with run Some show ?thesis by (auto simp: parse_obj.simps split: option.splits if_splits)
  qed
qed

lemma array_same_step:
  assumes l: "array_loop_same n off on"
  shows "array_same (Suc n) off on"
  unfolding array_same_def
proof (intro allI impI)
  fix ts res
  assume run: "parse_array (Suc n) off ts = Some res"
  then obtain x where x: "array_loop n off [LBracket] [] (advance ts) = Some x"
    by (auto simp: parse_array.simps split: option.splits)
  with l have "array_loop n on [LBracket] [] (advance ts) = Some x" by (simp add: array_loop_same_def)
  with run x show "parse_array (Suc n) on ts = Some res" by (simp add: parse_array.simps)
qed

lemma array_loop_same_step:
  assumes ac: "allow_comments off = allow_comments on"
    and pv: "value_same n off on" and l: "array_loop_same n off on"
  shows "array_loop_same (Suc n) off on"
  unfolding array_loop_same_def
proof (intro allI impI)
  fix chs items ts res
  assume run: "array_loop (Suc n) off chs items ts = Some res"
  note pnj = parse_non_json_comments [OF ac]
  show "array_loop (Suc n) on chs items ts = Some res"
  proof (cases "current ts")
    case None
    with run show ?thesis by (simp add: array_loop.simps)
  next
    case cur: (Some t)
    show ?thesis
    proof (cases "tok_type (fst t) = RBRACKET")
      case True
      with run cur show ?thesis by (simp add: array_loop.simps)
    next
      case nrb: False
      note unf = array_loop.simps cur nrb pnj
      show ?thesis
      proof (cases "parse_non_json on ts")
        case (Inl e)
        with run show ?thesis by (simp add: unf)
      next
        case (Inr p)
        then obtain ws1 ts1 where p1: "parse_non_json on ts = Inr (ws1, ts1)" by (cases p) simp
        show ?thesis
        proof (cases "parse_value n off ts1")
          case None
          with run p1 show ?thesis by (simp add: unf)
        next
          case (Some x)
          with pv have on: "parse_value n on ts1 = Some x" by (simp add: value_same_def)
          show ?thesis
          proof (cases x)
            case (Inl e)
            with run p1 Some on show ?thesis by (simp add: unf)
          next
            case (Inr q)
            then obtain v ts2 where x: "x = Inr (v, ts2)" by (cases q) simp
            show ?thesis
            proof (cases "parse_non_json on ts2")
              case (Inl e)
              with run p1 Some on x show ?thesis by (simp add: unf)
            next
              case (Inr w)
              then obtain ws2 ts3 where p2: "parse_non_json on ts2 = Inr (ws2, ts3)" by (cases w) simp
              show ?thesis
              proof (cases "current ts3")
                case None
                with run p1 Some on x p2 show ?thesis by (simp add: unf)
              next
                case t3: (Some t3)
                show ?thesis
                proof (cases "tok_type (fst t3) = COMMA")
                  case True
                  with run p1 Some x p2 t3
                  have "array_loop n off (chs @ ws1 @ [v] @ ws2 @ [Comma]) (items @ [v]) (advance ts3)
                      = Some res"
                    by (simp add: unf)
                  with l have "array_loop n on (chs @ ws1 @ [v] @ ws2 @ [Comma]) (items @ [v]) (advance ts3)
                      = Some res"
                    unfolding array_loop_same_def by blast
                  with p1 on x p2 t3 True show ?thesis by (simp add: unf)
                next
                  case nc: False
                  show ?thesis
                  proof (cases "tok_type (fst t3) = RBRACKET")
                    case False
                    with run p1 Some on x p2 t3 nc show ?thesis by (simp add: unf)
                  next
                    case True
                    with run p1 Some x p2 t3 nc
                    have "array_loop n off (chs @ ws1 @ [v] @ ws2) (items @ [v]) ts3 = Some res"
                      by (simp add: unf)
                    with l have "array_loop n on (chs @ ws1 @ [v] @ ws2) (items @ [v]) ts3 = Some res"
                      unfolding array_loop_same_def by blast
                    with p1 on x p2 t3 nc True show ?thesis by (simp add: unf)
                  qed
                qed
              qed
            qed
          qed
        qed
      qed
    qed
  qed
qed

lemma obj_loop_same_step:
  assumes ac: "allow_comments off = allow_comments on"
    and off: "\<not> allow_trailing_comma off" and on: "allow_trailing_comma on"
    and pv: "value_same n off on" and l: "obj_loop_same n off on"
  shows "obj_loop_same (Suc n) off on"
  unfolding obj_loop_same_def
proof (intro allI impI)
  fix chs d ts res
  assume run: "obj_loop (Suc n) off chs d ts = Some res"
  note mhc = member_head_comments [OF ac]
  show "obj_loop (Suc n) on chs d ts = Some res"
  proof (cases "current ts")
    case None
    with run show ?thesis by (simp add: obj_loop.simps)
  next
    case cur: (Some t)
    show ?thesis
    proof (cases "tok_type (fst t) = RBRACE")
      case True
      with run cur show ?thesis by (simp add: obj_loop.simps)
    next
      case nrb: False
      note unf = obj_loop.simps cur nrb
      show ?thesis
      proof (cases "member_head on ts")
        case (Inl e)
        with run show ?thesis by (simp add: unf mhc)
      next
        case (Inr p)
        then obtain ns1 key ts1 where mh: "member_head on ts = Inr (ns1, key, ts1)"
          by (cases p) auto
        then have mh': "member_head off ts = Inr (ns1, key, ts1)" by (simp add: mhc)
        show ?thesis
        proof (cases "parse_value n off ts1")
          case None
          with run mh' show ?thesis by (simp add: unf)
        next
          case (Some x)
          with pv have von: "parse_value n on ts1 = Some x" by (simp add: value_same_def)
          show ?thesis
          proof (cases x)
            case (Inl e)
            with run mh mh' Some von show ?thesis by (simp add: unf)
          next
            case (Inr q)
            then obtain v ts2 where x: "x = Inr (v, ts2)" by (cases q) simp
            show ?thesis
            proof (cases "key \<in> set (map fst d)")
              case True
              with run mh mh' Some von x show ?thesis by (simp add: unf)
            next
              case fresh: False
              show ?thesis
              proof (cases "member_tail off ts2")
                case (Inl e)
                from member_tail_off_on(1) [OF ac off on Inl] run mh mh' Some von x fresh Inl
                show ?thesis by (simp add: unf)
              next
                case (Inr w)
                then obtain ns2 stop ts3 where mt: "member_tail off ts2 = Inr (ns2, stop, ts3)"
                  by (cases w) auto
                from member_tail_off_on(2) [OF ac off on mt] have ns: "\<not> stop"
                  and mton: "member_tail on ts2 =
                    (case current ts3 of None \<Rightarrow> Inl AttributeError
                     | Some t \<Rightarrow> Inr (ns2, tok_type (fst t) = RBRACE, ts3))"
                  by simp_all
                let ?chs = "chs @ ns1 @ [v] @ ns2" and ?d = "d @ [(key, (String key, v))]"
                from run mh' Some x fresh mt ns have rec: "obj_loop n off ?chs ?d ts3 = Some res"
                  by (simp add: unf)
                show ?thesis
                proof (cases "current ts3")
                  case None
                  then have "ts3 = []" by (simp add: current_None_iff)
                  with rec have "res = Inl AttributeError"
                    by (cases n) (simp_all add: obj_loop.simps current_def)
                  with mh von x fresh mton None show ?thesis by (simp add: unf)
                next
                  case t3: (Some t3)
                  show ?thesis
                  proof (cases "tok_type (fst t3) = RBRACE")
                    case True
                    from obj_loop_at_rbrace [OF t3 True rec] mh von x fresh mton t3 True
                    show ?thesis by (simp add: unf)
                  next
                    case False
                    from l rec have "obj_loop n on ?chs ?d ts3 = Some res"
                      unfolding obj_loop_same_def by blast
                    with mh von x fresh mton t3 False show ?thesis by (simp add: unf)
                  qed
                qed
              qed
            qed
          qed
        qed
      qed
    qed
  qed
qed

lemma parser_same:
  assumes ac: "allow_comments off = allow_comments on"
    and off: "\<not> allow_trailing_comma off" and on: "allow_trailing_comma on"
  shows "value_same n off on \<and> obj_same n off on \<and> obj_loop_same n off on \<and>
         array_same n off on \<and> array_loop_same n off on"
proof (induction n)
  case 0
  show ?case
    by (simp add: value_same_def obj_same_def obj_loop_same_def array_same_def array_loop_same_def
        parse_value.simps parse_obj.simps obj_loop.simps parse_array.simps array_loop.simps)
next
  case (Suc n)
  with ac off on show ?case
    by (simp add: value_same_step obj_same_step obj_loop_same_step array_same_step
        array_loop_same_step)
qed

lemma parse_tokens_same:
  assumes ac: "allow_comments off = allow_comments on"
    and off: "\<not> allow_trailing_comma off" and on: "allow_trailing_comma on"
    and run: "parse_tokens off ts = Some res"
  shows "parse_tokens on ts = Some res"
proof (cases "current ts = None")
  case True
  with run show ?thesis by (simp add: parse_tokens_def)
next
  case False
  then obtain t0 where ne: "current ts = Some t0" by blast
  note pnj = parse_non_json_comments [OF ac]
  note run' = run [unfolded parse_tokens_def pnj]
  note same = parser_same [OF ac off on, of "3 * length ts + 3"]
  show ?thesis
  proof (cases "parse_non_json on ts")
    case (Inl e)
    with run' ne show ?thesis by (simp add: parse_tokens_def)
  next
    case (Inr p)
    then obtain ws1 ts1 where p1: "parse_non_json on ts = Inr (ws1, ts1)" by (cases p) simp
    show ?thesis
    proof (cases "current ts1")
      case None
      with run' ne p1 show ?thesis by (simp add: parse_tokens_def)
    next
      case t: (Some t)
      let ?blk = "\<lambda>c. if tok_type (fst t) = LBRACE then parse_obj (3 * length ts + 3) c ts1
                       else if tok_type (fst t) = LBRACKET then parse_array (3 * length ts + 3) c ts1
                       else Some (Inl (parser_exception
                              (unexpected t @
                               '', expecting Object or Array at the top level of the alexson string'')
                              ts1))"
      show ?thesis
      proof (cases "?blk off")
        case None
        with run' ne p1 t show ?thesis by (simp add: parse_tokens_def)
      next
        case (Some x)
        with same have "?blk on = Some x"
          by (simp add: obj_same_def array_same_def split: if_splits)
        with run' ne p1 t Some show ?thesis by (simp add: parse_tokens_def)
      qed
    qed
  qed
qed

lemma parse_tokens_off_on:
  assumes "allow_comments off = allow_comments on"
    and "\<not> allow_trailing_comma off" and "allow_trailing_comma on"
  shows "parse_tokens off ts = parse_tokens on ts"
proof -
  obtain res where "parse_tokens off ts = Some res"
    using parse_tokens_total [of off ts] by blast
  with parse_tokens_same [OF assms] show ?thesis by simp
qed

lemma parse_tokens_trailing_comma:
  "parse_tokens (cfg\<lparr>allow_trailing_comma := b\<rparr>) ts = parse_tokens cfg ts"
proof (cases "allow_trailing_comma cfg = b")
  case True
  then have "cfg\<lparr>allow_trailing_comma := b\<rparr> = cfg" by simp
  then show ?thesis by simp
next
  case False
  show ?thesis
  proof (cases b)
    case True
    with False parse_tokens_off_on [of cfg "cfg\<lparr>allow_trailing_comma := b\<rparr>" ts]
    show ?thesis by simp
  next
    case nb: False
    with False parse_tokens_off_on [of "cfg\<lparr>allow_trailing_comma := b\<rparr>" cfg ts]
    show ?thesis by simp
  qed
qed

lemma parse_trailing_comma:
  "parse (cfg\<lparr>allow_trailing_comma := b\<rparr>) txt = parse cfg txt"
  unfolding parse_def parse_tokens_trailing_comma by (rule refl)

section \<open>Input that ends in formatting\<close>

text \<open>
  The loop of \<^verbatim>\<open>_parse_non_json\<close> ends only at a token that is not formatting: run
  over the last tokens of the input it reads past the end. A container ends with its closing
  bracket, so a parse that returns a tree has read a closing bracket as its last token.
\<close>

lemma non_json_loop_exhausts:
  "list_all (\<lambda>t. tok_type (fst t) \<in> NON_JSON_TYPES) ts \<Longrightarrow> non_json_loop cfg acc ts = Inl AttributeError"
  by (induction ts arbitrary: acc) simp_all

lemma parse_tokens_formatting_only:
  assumes "ts \<noteq> []" and "list_all (\<lambda>t. tok_type (fst t) \<in> NON_JSON_TYPES) ts"
  shows "parse_tokens cfg ts = Some (Inl AttributeError)"
  using assms by (simp add: parse_tokens_def parse_non_json_def current_None_iff non_json_loop_exhausts)

lemma non_json_loop_leaves:
  "non_json_loop cfg acc ts = Inr (ns, ts') \<Longrightarrow> ts' \<noteq> []"
  by (induction ts arbitrary: acc) (auto split: if_splits)

lemma parse_non_json_leaves:
  "parse_non_json cfg ts = Inr (ns, []) \<Longrightarrow> ts = []"
  by (auto simp: parse_non_json_def current_None_iff split: if_splits dest: non_json_loop_leaves)

lemma parse_obj_closes:
  assumes run: "parse_obj n cfg ts = Some (Inr (v, ts'))"
  shows "\<exists>pre t. ts = pre @ t # ts' \<and> tok_type (fst t) = RBRACE"
proof (cases n)
  case 0
  with run show ?thesis by (simp add: parse_obj.simps)
next
  case (Suc m)
  with run obtain t0 chs d ts2 where cur: "current ts = Some t0"
    and loop: "obj_loop m cfg [LBrace] [] (advance ts) = Some (Inr (chs, d, ts2))"
    and ts': "ts' = advance ts2"
    by (auto simp: parse_obj.simps split: option.splits if_splits sum.splits)
  from parser_ok [of m cfg] loop obtain pre t where pre: "advance ts = pre @ ts2"
    and t: "current ts2 = Some t" "tok_type (fst t) = RBRACE"
    unfolding obj_loop_ok_def spans_def by blast
  from cur have "ts = t0 # advance ts" by (cases ts) (simp_all add: current_def advance_def)
  moreover from t(1) ts' have "ts2 = t # ts'" by (cases ts2) (simp_all add: current_def advance_def)
  ultimately have "ts = (t0 # pre) @ t # ts'" using pre by simp
  with t(2) show ?thesis by blast
qed

lemma parse_array_closes:
  assumes run: "parse_array n cfg ts = Some (Inr (v, ts'))"
  shows "\<exists>pre t. ts = pre @ t # ts' \<and> tok_type (fst t) = RBRACKET"
proof (cases n)
  case 0
  with run show ?thesis by (simp add: parse_array.simps)
next
  case (Suc m)
  with run obtain chs items ts2 where
    loop: "array_loop m cfg [LBracket] [] (advance ts) = Some (Inr (chs, items, ts2))"
    and ts': "ts' = advance ts2"
    by (auto simp: parse_array.simps split: option.splits sum.splits)
  from parser_ok [of m cfg] loop obtain pre t where pre: "advance ts = pre @ ts2"
    and t: "current ts2 = Some t" "tok_type (fst t) = RBRACKET"
    unfolding array_loop_ok_def spans_def by blast
  from t(1) ts' have ts2: "ts2 = t # ts'" by (cases ts2) (simp_all add: current_def advance_def)
  with pre have "ts \<noteq> []" by (auto simp: advance_def)
  then obtain t0 where "ts = t0 # advance ts" by (cases ts) (simp_all add: advance_def)
  with pre ts2 have "ts = (t0 # pre) @ t # ts'" by simp
  with t(2) show ?thesis by blast
qed

lemma parse_tokens_trailing_formatting:
  assumes ne: "ts \<noteq> []" and fmt: "tok_type (fst (last ts)) \<in> NON_JSON_TYPES"
  shows "parse_tokens cfg ts \<noteq> Some (Inr r)"
proof
  assume run: "parse_tokens cfg ts = Some (Inr r)"
  from ne obtain t0 where cur: "current ts = Some t0" by (cases ts) (simp_all add: current_def)
  from run cur obtain ws1 ts1 where p1: "parse_non_json cfg ts = Inr (ws1, ts1)"
    by (auto simp: parse_tokens_def split: sum.splits)
  from parse_non_json_spans [OF p1] obtain pre0 where pre0: "ts = pre0 @ ts1"
    unfolding spans_def by blast
  show False
  proof (cases "current ts1")
    case None
    then have "ts1 = []" by (simp add: current_None_iff)
    with p1 parse_non_json_leaves ne show False by blast
  next
    case t: (Some t)
    let ?blk = "if tok_type (fst t) = LBRACE then parse_obj (3 * length ts + 3) cfg ts1
                else if tok_type (fst t) = LBRACKET then parse_array (3 * length ts + 3) cfg ts1
                else Some (Inl (parser_exception
                       (unexpected t @
                        '', expecting Object or Array at the top level of the alexson string'')
                       ts1))"
    from run cur p1 t obtain block ts2 where blk: "?blk = Some (Inr (block, ts2))"
      by (simp add: parse_tokens_def split: option.splits sum.splits prod.splits)
    with run ne p1 t obtain ws2 where p2: "parse_non_json cfg ts2 = Inr (ws2, [])"
      by (auto simp: parse_tokens_def current_None_iff split: sum.splits if_splits)
    then have ts2: "ts2 = []" by (simp add: parse_non_json_leaves)
    have "\<exists>pre c. ts1 = pre @ [c] \<and> (tok_type (fst c) = RBRACE \<or> tok_type (fst c) = RBRACKET)"
    proof (cases "tok_type (fst t) = LBRACE")
      case True
      with blk ts2 have "parse_obj (3 * length ts + 3) cfg ts1 = Some (Inr (block, []))" by simp
      from parse_obj_closes [OF this] show ?thesis by blast
    next
      case False
      with blk ts2 have "parse_array (3 * length ts + 3) cfg ts1 = Some (Inr (block, []))"
        by (simp split: if_splits)
      from parse_array_closes [OF this] show ?thesis by blast
    qed
    then obtain pre c where "ts1 = pre @ [c]"
      and "tok_type (fst c) = RBRACE \<or> tok_type (fst c) = RBRACKET"
      by blast
    with pre0 fmt show False by (auto simp: NON_JSON_TYPES_def)
  qed
qed

section \<open>The claims\<close>

subsection \<open>Behaviour at concrete inputs\<close>

text \<open>
  Claim C1 (round-trip identity): for every input that is accepted, with comments kept,
  serializing the unmodified tree gives the input back. The scanner drops every backslash
  of a string and \<^verbatim>\<open>String.to_alexson\<close> restores one only before a double quote, so
  the claim holds for the inputs whose backslashes all stand before a double quote.
\<close>

theorem roundtrip:
  assumes "allow_comments cfg" and "bs_ok text" and "parse cfg text = Some (Inr r)"
  shows "Root_to_alexson r = text"
proof -
  from assms(3) obtain ts where tk: "tokenize text = Inr ts" and pt: "parse_tokens cfg ts = Some (Inr r)"
    by (auto simp: parse_def split: sum.splits)
  from tokenize_covers [OF tk] assms(2) have "toks_wf ts" and "lexemes ts = text" by simp_all
  with parse_tokens_text [OF pt assms(1)] show ?thesis by simp
qed

theorem roundtrip_witness:
  \<open>allow_comments \<lparr>allow_trailing_comma = False, allow_comments = True\<rparr>
   \<and> bs_ok (''{"k": "a'' @ [backslash, dquote] @ ''b", "n": [1, 2.50, true, null, X_1], # c''
         @ [newline, tab] @ ''}'')
   \<and> (\<exists>r. parse \<lparr>allow_trailing_comma = False, allow_comments = True\<rparr>
           (''{"k": "a'' @ [backslash, dquote] @ ''b", "n": [1, 2.50, true, null, X_1], # c''
             @ [newline, tab] @ ''}'') = Some (Inr r)
         \<and> Root_to_alexson r =
           ''{"k": "a'' @ [backslash, dquote] @ ''b", "n": [1, 2.50, true, null, X_1], # c''
             @ [newline, tab] @ ''}'')\<close>
proof -
  let ?C = "\<lparr>allow_trailing_comma = False, allow_comments = True\<rparr>"
  let ?T = \<open>''{"k": "a'' @ [backslash, dquote] @ ''b", "n": [1, 2.50, true, null, X_1], # c''
             @ [newline, tab] @ ''}''\<close>
  let ?A = "Array
              [LBracket, Number 1 ''1'', Comma, WhiteSpace,
               Number (5 / 2) ''2.50'', Comma, WhiteSpace, Boolean True,
               Comma, WhiteSpace, Null, Comma, WhiteSpace, Variable ''X_1'',
               RBracket]
              [Number 1 ''1'', Number (5 / 2) ''2.50'', Boolean True, Null,
               Variable ''X_1'']"
  let ?R = "\<lparr>children =
          [Object
            [LBrace, String ''k'', Colon, WhiteSpace,
             String [CHR ''a'', CHR 0x22, CHR ''b''], Comma, WhiteSpace,
             String ''n'', Colon, WhiteSpace, ?A,
             Comma, WhiteSpace, Comment ''# c'', NewLine, Tab, RBrace]
            [(''k'', String ''k'', String [CHR ''a'', CHR 0x22, CHR ''b'']),
             (''n'', String ''n'', ?A)]],
          primary_obj = None\<rparr>"
  have h1: "allow_comments ?C" by simp
  have h2: "bs_ok ?T" by code_simp
  have h3: "parse ?C ?T = Some (Inr ?R)" by code_simp
  from roundtrip [OF h1 h2 h3] h1 h2 h3 show ?thesis by blast
qed

theorem roundtrip_counterexample:
  \<open>parse \<lparr>allow_trailing_comma = False, allow_comments = True\<rparr> (''{"a":"x'' @ [backslash] @ ''y"}'') =
     Some (Inr \<lparr>children = [Object [LBrace, String ''a'', Colon, String ''xy'', RBrace]
                                [(''a'', String ''a'', String ''xy'')]],
                primary_obj = None\<rparr>)
   \<and> Root_to_alexson \<lparr>children = [Object [LBrace, String ''a'', Colon, String ''xy'', RBrace]
                                [(''a'', String ''a'', String ''xy'')]],
                primary_obj = None\<rparr> = ''{"a":"xy"}''
   \<and> ''{"a":"xy"}'' \<noteq> ''{"a":"x'' @ [backslash] @ ''y"}''\<close>
  by code_simp

text \<open>
  Claim C2 (trailing comma policy): \<^verbatim>\<open>{"a":1,}\<close> is to parse if and only if
  \<open>allow_trailing_comma\<close> is set, and to fail with a parse error at the closing brace
  otherwise. The code accepts it with the option off: after the comma the loop test
  \<^verbatim>\<open>self.current().type != TokenType.RBRACE\<close> ends the loop exactly as the
  \<^verbatim>\<open>break\<close> under the option would. The array loop never reads the option.
  On every input, setting the option to any value leaves the result of the parse unchanged.
\<close>

theorem trailing_comma_accepted_when_disabled:
  \<open>parse (cfg\<lparr>allow_trailing_comma := b\<rparr>) txt = parse cfg txt
   \<and> parse \<lparr>allow_trailing_comma = False, allow_comments = True\<rparr> ''{"a":1,}'' =
     Some (Inr \<lparr>children =
       [Object [LBrace, String ''a'', Colon, Number 1 ''1'', Comma, RBrace]
          [(''a'', String ''a'', Number 1 ''1'')]],
       primary_obj = None\<rparr>)
   \<and> parse \<lparr>allow_trailing_comma = False, allow_comments = True\<rparr> ''[1,]'' =
     Some (Inr \<lparr>children = [Array [LBracket, Number 1 ''1'', Comma, RBracket] [Number 1 ''1'']],
       primary_obj = None\<rparr>)\<close>
proof (intro conjI)
  show "parse (cfg\<lparr>allow_trailing_comma := b\<rparr>) txt = parse cfg txt"
    by (rule parse_trailing_comma)
qed code_simp+

text \<open>
  Claim C3 (localized mutation): setting \<open>object[k]\<close> is to replace the value node of
  \<open>k\<close> and change only that value's span of the text. \<^verbatim>\<open>Object.__setitem__\<close>
  replaces the child at \<^verbatim>\<open>children.index(old)\<close>, the first child equal to the old
  value: in \<^verbatim>\<open>{"a":"x","b":"x"}\<close>, setting \<open>b\<close> rewrites the value of \<open>a\<close>, while
  the \<^verbatim>\<open>dict\<close> holds the new value under \<open>b\<close>.
\<close>

theorem object_setitem_replaces_first_equal_child:
  \<open>(case parse \<lparr>allow_trailing_comma = False, allow_comments = True\<rparr> ''{"a":"x","b":"x"}'' of
      Some (Inr r) \<Rightarrow>
        (case fst (get_primary_obj r) of
           Some obj \<Rightarrow>
             (case Object_setitem obj ''b'' (String ''y'') of
                Inr obj' \<Rightarrow> Some (to_alexson obj, to_alexson obj', Object_getitem obj' ''b'')
              | Inl e \<Rightarrow> None)
         | None \<Rightarrow> None)
    | _ \<Rightarrow> None) =
   Some (''{"a":"x","b":"x"}'', ''{"a":"y","b":"x"}'', Inr (String ''y''))\<close>
  by code_simp

text \<open>
  Claim C4 (array mutation is reflected in serialization): \<open>set(i, node)\<close> is to replace
  the node in the children and in the item index. \<^verbatim>\<open>Array.__setitem__\<close> assigns
  \<^verbatim>\<open>self.items[key]\<close> only: the item index holds the new node and the text is
  unchanged.
\<close>

theorem array_setitem_not_serialized:
  \<open>(case parse \<lparr>allow_trailing_comma = False, allow_comments = True\<rparr> ''[1, 2]'' of
      Some (Inr r) \<Rightarrow>
        (case fst (get_primary_obj r) of
           Some arr \<Rightarrow>
             (case Array_setitem arr 0 (Number 7 ''7'') of
                Inr arr' \<Rightarrow> Some (to_alexson arr, to_alexson arr', Array_getitem arr' 0)
              | Inl e \<Rightarrow> None)
         | None \<Rightarrow> None)
    | _ \<Rightarrow> None) =
   Some (''[1, 2]'', ''[1, 2]'', Inr (Number 7 ''7''))\<close>
  by code_simp

text \<open>
  Claim C5 (duplicate key rejection): \<^verbatim>\<open>{"a":1,"a":2}\<close> fails with a parse error that
  names the key \<open>a\<close>. In general: when the loop of \<^verbatim>\<open>_parse_obj\<close> has read a member
  whose key is already in the \<^verbatim>\<open>dict\<close>, it raises \<^verbatim>\<open>Duplicate key\<close> for that later
  member; and no tree that a parse returns holds an object with a key twice.
\<close>

theorem duplicate_key_rejected:
  \<open>parse \<lparr>allow_trailing_comma = False, allow_comments = True\<rparr> ''{"a":1,"a":2}'' =
     Some (Inl (AlexsonParserException ''Duplicate key a'' 1 13))
   \<and> (\<forall>n cfg chs d ts t ns key ts1 v ts2.
         current ts = Some t \<longrightarrow> tok_type (fst t) \<noteq> RBRACE \<longrightarrow>
         member_head cfg ts = Inr (ns, key, ts1) \<longrightarrow>
         parse_value n cfg ts1 = Some (Inr (v, ts2)) \<longrightarrow>
         key \<in> set (map fst d) \<longrightarrow>
         obj_loop (Suc n) cfg chs d ts =
           Some (Inl (parser_exception (''Duplicate key '' @ key) ts2)))
   \<and> (\<forall>cfg txt r. parse cfg txt = Some (Inr r) \<longrightarrow> list_all keys_unique (children r))\<close>
proof -
  have \<open>parse \<lparr>allow_trailing_comma = False, allow_comments = True\<rparr> ''{"a":1,"a":2}'' =
     Some (Inl (AlexsonParserException ''Duplicate key a'' 1 13))\<close>
    by code_simp
  with duplicate_in_loop parse_keys show ?thesis by blast
qed


theorem duplicate_key_rejected_witness:
  \<open>current [(Token STRING ''a'', 1, 8), (Token COLON '':'', 1, 9), (Token NUMBER ''2'', 1, 10),
            (Token RBRACE ''}'', 1, 11)] = Some (Token STRING ''a'', 1, 8)
   \<and> tok_type (fst (Token STRING ''a'', (1::int), (8::int))) \<noteq> RBRACE
   \<and> member_head \<lparr>allow_trailing_comma = False, allow_comments = True\<rparr>
        [(Token STRING ''a'', 1, 8), (Token COLON '':'', 1, 9), (Token NUMBER ''2'', 1, 10),
         (Token RBRACE ''}'', 1, 11)] =
       Inr ([String ''a'', Colon], ''a'', [(Token NUMBER ''2'', 1, 10), (Token RBRACE ''}'', 1, 11)])
   \<and> parse_value 1 \<lparr>allow_trailing_comma = False, allow_comments = True\<rparr>
        [(Token NUMBER ''2'', 1, 10), (Token RBRACE ''}'', 1, 11)] =
       Some (Inr (Number 2 ''2'', [(Token RBRACE ''}'', 1, 11)]))
   \<and> ''a'' \<in> set (map fst [(''a'', String ''a'', Number 1 ''1'')])
   \<and> obj_loop (Suc 1) \<lparr>allow_trailing_comma = False, allow_comments = True\<rparr>
        [LBrace, String ''a'', Colon, Number 1 ''1'', Comma] [(''a'', String ''a'', Number 1 ''1'')]
        [(Token STRING ''a'', 1, 8), (Token COLON '':'', 1, 9), (Token NUMBER ''2'', 1, 10),
         (Token RBRACE ''}'', 1, 11)] =
       Some (Inl (AlexsonParserException ''Duplicate key a'' 1 11))
   \<and> parse \<lparr>allow_trailing_comma = False, allow_comments = True\<rparr> ''{"a":"b","b":{"a":"b"}}'' =
       Some (Inr \<lparr>children =
         [Object [LBrace, String ''a'', Colon, String ''b'', Comma, String ''b'', Colon,
                  Object [LBrace, String ''a'', Colon, String ''b'', RBrace]
                    [(''a'', String ''a'', String ''b'')],
                  RBrace]
            [(''a'', String ''a'', String ''b''),
             (''b'', String ''b'',
              Object [LBrace, String ''a'', Colon, String ''b'', RBrace]
                [(''a'', String ''a'', String ''b'')])]],
         primary_obj = None\<rparr>)
   \<and> list_all keys_unique
        [Object [LBrace, String ''a'', Colon, String ''b'', Comma, String ''b'', Colon,
                  Object [LBrace, String ''a'', Colon, String ''b'', RBrace]
                    [(''a'', String ''a'', String ''b'')],
                  RBrace]
            [(''a'', String ''a'', String ''b''),
             (''b'', String ''b'',
              Object [LBrace, String ''a'', Colon, String ''b'', RBrace]
                [(''a'', String ''a'', String ''b'')])]]\<close>
proof -
  let ?C = "\<lparr>allow_trailing_comma = False, allow_comments = True\<rparr>"
  let ?ts = "[(Token STRING ''a'', 1, 8), (Token COLON '':'', 1, 9), (Token NUMBER ''2'', 1, 10),
              (Token RBRACE ''}'', 1, 11)] :: ptoken list"
  let ?ts1 = "[(Token NUMBER ''2'', 1, 10), (Token RBRACE ''}'', 1, 11)] :: ptoken list"
  let ?ts2 = "[(Token RBRACE ''}'', 1, 11)] :: ptoken list"
  let ?d = "[(''a'', String ''a'', Number 1 ''1'')]"
  let ?O = "Object [LBrace, String ''a'', Colon, String ''b'', Comma, String ''b'', Colon,
                  Object [LBrace, String ''a'', Colon, String ''b'', RBrace]
                    [(''a'', String ''a'', String ''b'')],
                  RBrace]
            [(''a'', String ''a'', String ''b''),
             (''b'', String ''b'',
              Object [LBrace, String ''a'', Colon, String ''b'', RBrace]
                [(''a'', String ''a'', String ''b'')])]"
  have h1: "current ?ts = Some (Token STRING ''a'', 1, 8)" by code_simp
  have h2: "tok_type (fst (Token STRING ''a'', (1::int), (8::int))) \<noteq> RBRACE" by simp
  have h3: "member_head ?C ?ts = Inr ([String ''a'', Colon], ''a'', ?ts1)" by code_simp
  have h4: "parse_value 1 ?C ?ts1 = Some (Inr (Number 2 ''2'', ?ts2))" by code_simp
  have h5: "''a'' \<in> set (map fst ?d)" by simp
  have h6: \<open>parse ?C ''{"a":"b","b":{"a":"b"}}'' = Some (Inr \<lparr>children = [?O], primary_obj = None\<rparr>)\<close>
    by code_simp
  have e: "parser_exception ''Duplicate key a'' ?ts2 = AlexsonParserException ''Duplicate key a'' 1 11"
    by code_simp
  note main = duplicate_key_rejected
  from main [THEN conjunct2, THEN conjunct1, rule_format, OF h1 h2 h3 h4 h5,
      of "[LBrace, String ''a'', Colon, Number 1 ''1'', Comma]"] e
  have c1: "obj_loop (Suc 1) ?C [LBrace, String ''a'', Colon, Number 1 ''1'', Comma] ?d ?ts =
      Some (Inl (AlexsonParserException ''Duplicate key a'' 1 11))"
    by simp
  from main [THEN conjunct2, THEN conjunct2, rule_format, OF h6]
  have c2: "list_all keys_unique [?O]" by simp
  from h1 h2 h3 h4 h5 h6 c1 c2 show ?thesis by (intro conjI)
qed

text \<open>
  Claim C6 (brackets around formatting only): \<^verbatim>\<open>{ }\<close> and \<^verbatim>\<open>[ ]\<close> are to parse
  into empty containers. Both loops test for the closing bracket before they skip the
  formatting, so the blank is taken for the start of a member or a value and the closing
  bracket is an unexpected token. Without the blank both parse.
\<close>

theorem blank_container_rejected:
  \<open>parse \<lparr>allow_trailing_comma = True, allow_comments = True\<rparr> ''{ }'' =
     Some (Inl (AlexsonParserException ''Unexpected token RBRACE'' 1 3))
   \<and> parse \<lparr>allow_trailing_comma = True, allow_comments = True\<rparr> ''[ ]'' =
     Some (Inl (AlexsonParserException ''Unexpected token RBRACKET'' 1 3))
   \<and> parse \<lparr>allow_trailing_comma = True, allow_comments = True\<rparr> ''{}'' =
     Some (Inr \<lparr>children = [Object [LBrace, RBrace] []], primary_obj = None\<rparr>)\<close>
  by code_simp

text \<open>
  Claim C7 (every malformed input fails with a positioned error): an input that ends
  inside an object ends in \<^verbatim>\<open>self.current().type\<close> on \<^verbatim>\<open>None\<close>, an
  \<^verbatim>\<open>AttributeError\<close>; content after the root container fails the final
  \<^verbatim>\<open>assert\<close>, an \<^verbatim>\<open>AssertionError\<close>. Neither carries a position.
\<close>

theorem unpositioned_failures:
  \<open>parse \<lparr>allow_trailing_comma = True, allow_comments = True\<rparr> ''{'' = Some (Inl AttributeError)
   \<and> parse \<lparr>allow_trailing_comma = True, allow_comments = True\<rparr> ''{"a":1'' = Some (Inl AttributeError)
   \<and> parse \<lparr>allow_trailing_comma = True, allow_comments = True\<rparr> ''{} x'' = Some (Inl AssertionError)\<close>
  by code_simp

text \<open>
  Claim C8 (number tolerance): \<^verbatim>\<open>Number("2.00")\<close> and \<^verbatim>\<open>Number("2")\<close> are equal,
  two numbers being equal if and only if their values differ by less than \<open>1e-6\<close>, and
  each serializes to its own original text.
\<close>

theorem number_tolerance:
  \<open>Number_init ''2.00'' = Inr (Number 2 ''2.00'')
   \<and> Number_init ''2'' = Inr (Number 2 ''2'')
   \<and> node_eq (Number 2 ''2.00'') (Number 2 ''2'')
   \<and> to_alexson (Number 2 ''2.00'') = ''2.00''
   \<and> to_alexson (Number 2 ''2'') = ''2''
   \<and> (\<forall>a b s t. node_eq (Number a s) (Number b t) = (\<bar>a - b\<bar> < 1 / 1000000))
   \<and> (\<forall>a s. to_alexson (Number a s) = s)\<close>
  by (simp add: Number_init_def float_of_def ascii_digit_def digits_value_def)

text \<open>
  Claim C9 (comment retention policy): \<^verbatim>\<open>{"a":1} # note\<close> followed by a newline is to
  parse, with the comment kept or dropped as \<open>allow_comments\<close> says. The input ends in
  a formatting token, and the loop of \<^verbatim>\<open>_parse_non_json\<close> reads
  \<^verbatim>\<open>self.current().type\<close> after the last token: the parse ends in an
  \<^verbatim>\<open>AttributeError\<close> under either setting. No input whose last token is a blank, a
  tab, a newline or a comment parses into a tree, under any configuration.
\<close>

theorem trailing_comment_crashes:
  \<open>(\<forall>cfg txt ts r. tokenize txt = Inr ts \<longrightarrow> ts \<noteq> [] \<longrightarrow>
       tok_type (fst (last ts)) \<in> NON_JSON_TYPES \<longrightarrow> parse cfg txt \<noteq> Some (Inr r))
   \<and> parse \<lparr>allow_trailing_comma = True, allow_comments = True\<rparr> (''{"a":1} # note'' @ [newline]) =
     Some (Inl AttributeError)
   \<and> parse \<lparr>allow_trailing_comma = True, allow_comments = False\<rparr> (''{"a":1} # note'' @ [newline]) =
     Some (Inl AttributeError)\<close>
proof (intro conjI allI impI)
  fix cfg inp ts r
  assume "tokenize inp = Inr ts" and "ts \<noteq> []" and "tok_type (fst (last ts)) \<in> NON_JSON_TYPES"
  then show "parse cfg inp \<noteq> Some (Inr r)"
    by (simp add: parse_def parse_tokens_trailing_formatting)
qed code_simp+

theorem trailing_comment_crashes_witness:
  \<open>tokenize (''[1]'' @ [newline]) =
     Inr [(Token LBRACKET ''['', 1, 1), (Token NUMBER ''1'', 1, 2), (Token RBRACKET '']'', 2, 0),
          (Token NEWLINES [newline], 2, 1)]
   \<and> [(Token LBRACKET ''['', 1, 1), (Token NUMBER ''1'', 1, 2), (Token RBRACKET '']'', 2, 0),
       (Token NEWLINES [newline], (2::int), (1::int))] \<noteq> []
   \<and> tok_type (fst (last [(Token LBRACKET ''['', 1, 1), (Token NUMBER ''1'', 1, 2),
         (Token RBRACKET '']'', 2, 0), (Token NEWLINES [newline], (2::int), (1::int))])) \<in> NON_JSON_TYPES
   \<and> (\<forall>r. parse \<lparr>allow_trailing_comma = False, allow_comments = True\<rparr> (''[1]'' @ [newline]) \<noteq>
          Some (Inr r))\<close>
proof -
  let ?T = "''[1]'' @ [newline]"
  let ?TS = "[(Token LBRACKET ''['', 1, 1), (Token NUMBER ''1'', 1, 2), (Token RBRACKET '']'', 2, 0),
              (Token NEWLINES [newline], (2::int), (1::int))]"
  let ?C = "\<lparr>allow_trailing_comma = False, allow_comments = True\<rparr>"
  have h1: "tokenize ?T = Inr ?TS" by code_simp
  have h2: "?TS \<noteq> []" by simp
  have h3: "tok_type (fst (last ?TS)) \<in> NON_JSON_TYPES" by (simp add: NON_JSON_TYPES_def)
  from trailing_comment_crashes h1 h2 h3 have "\<forall>r. parse ?C ?T \<noteq> Some (Inr r)" by blast
  with h1 h2 h3 show ?thesis by blast
qed

text \<open>
  Claim C10 (input of formatting only): a non-empty input of blanks and comments is to
  parse into a root of formatting nodes with no primary container. The same read after
  the last token ends the parse in an \<^verbatim>\<open>AttributeError\<close>, on every input whose
  tokens are all formatting and under every configuration.
\<close>

theorem blank_input_crashes:
  \<open>(\<forall>cfg txt ts. tokenize txt = Inr ts \<longrightarrow> ts \<noteq> [] \<longrightarrow>
       list_all (\<lambda>t. tok_type (fst t) \<in> NON_JSON_TYPES) ts \<longrightarrow>
       parse cfg txt = Some (Inl AttributeError))
   \<and> parse \<lparr>allow_trailing_comma = True, allow_comments = True\<rparr> '' '' = Some (Inl AttributeError)
   \<and> parse \<lparr>allow_trailing_comma = True, allow_comments = True\<rparr> (''# c'' @ [newline]) = Some (Inl AttributeError)\<close>
proof (intro conjI allI impI)
  fix cfg inp ts
  assume "tokenize inp = Inr ts" and "ts \<noteq> []"
    and "list_all (\<lambda>t. tok_type (fst t) \<in> NON_JSON_TYPES) ts"
  then show "parse cfg inp = Some (Inl AttributeError)"
    by (simp add: parse_def parse_tokens_formatting_only)
qed code_simp+

theorem blank_input_crashes_witness:
  \<open>tokenize [tab, newline] = Inr [(Token TABS [tab], 2, 0), (Token NEWLINES [newline], 2, 1)]
   \<and> [(Token TABS [tab], (2::int), (0::int)), (Token NEWLINES [newline], 2, 1)] \<noteq> []
   \<and> list_all (\<lambda>t. tok_type (fst t) \<in> NON_JSON_TYPES)
        [(Token TABS [tab], (2::int), (0::int)), (Token NEWLINES [newline], 2, 1)]
   \<and> parse \<lparr>allow_trailing_comma = False, allow_comments = False\<rparr> [tab, newline] =
       Some (Inl AttributeError)\<close>
proof -
  let ?T = "[tab, newline]"
  let ?TS = "[(Token TABS [tab], (2::int), (0::int)), (Token NEWLINES [newline], 2, 1)]"
  let ?C = "\<lparr>allow_trailing_comma = False, allow_comments = False\<rparr>"
  have h1: "tokenize ?T = Inr ?TS" by code_simp
  have h2: "?TS \<noteq> []" by simp
  have h3: "list_all (\<lambda>t. tok_type (fst t) \<in> NON_JSON_TYPES) ?TS" by (simp add: NON_JSON_TYPES_def)
  from blank_input_crashes h1 h2 h3 have "parse ?C ?T = Some (Inl AttributeError)" by blast
  with h1 h2 h3 show ?thesis by blast
qed

end
